theory Spec2Isabelle
  imports Main
begin

section \<open>Data model\<close>

text \<open>
  Identifiers (\<open>uuidv4()\<close> strings in the source) are opaque and only compared for
  equality; they are natural numbers here, drawn from the counter \<open>next_uuid\<close> of the
  store. A \<open>Date\<close> is its \<open>getTime()\<close> value, an integer number of milliseconds.
  Amounts and points are integers (the source's \<open>number\<close>, used on whole currency units).
  Every \<open>new Date()\<close> read during one service call is the one instant \<open>now\<close> passed
  to that call.
\<close>

type_synonym ident = nat
type_synonym instant = int

text \<open>\<open>challenges/types.ts\<close>: the string enums keep their runtime values.\<close>

type_synonym ChallengeType = string

definition SAVINGS :: ChallengeType where "SAVINGS = ''savings''"
definition SPENDING_LIMIT :: ChallengeType where "SPENDING_LIMIT = ''spending_limit''"
definition CATEGORY_BAN :: ChallengeType where "CATEGORY_BAN = ''category_ban''"
definition STREAK :: ChallengeType where "STREAK = ''streak''"
definition GOAL_CONTRIBUTION :: ChallengeType where "GOAL_CONTRIBUTION = ''goal_contribution''"
definition INCOME_PERCENTAGE :: ChallengeType where "INCOME_PERCENTAGE = ''income_percentage''"

datatype ChallengeStatus = ACTIVE | COMPLETED | FAILED | EXPIRED

type_synonym ChallengeDifficulty = string

definition EASY :: ChallengeDifficulty where "EASY = ''easy''"
definition MEDIUM :: ChallengeDifficulty where "MEDIUM = ''medium''"
definition HARD :: ChallengeDifficulty where "HARD = ''hard''"

type_synonym ChallengeFrequency = string

definition DAILY :: ChallengeFrequency where "DAILY = ''daily''"
definition WEEKLY :: ChallengeFrequency where "WEEKLY = ''weekly''"
definition MONTHLY :: ChallengeFrequency where "MONTHLY = ''monthly''"

record ChallengeRules =
  targetAmount :: "int option"
  category :: "string option"
  streakDays :: "int option"
  percentage :: "int option"
  goalId :: "ident option"

record ChallengeProgress =
  currentAmount :: "int option"
  currentStreak :: "int option"
  lastCheckedAt :: "instant option"
  completedAt :: "instant option"

datatype TransactionType = income | expense

record Transaction =
  t_id :: ident
  t_userId :: string
  t_amount :: int
  t_description :: string
  t_category :: string
  t_type :: TransactionType
  t_createdAt :: instant

record Goal =
  g_id :: ident
  g_userId :: string
  g_currentAmount :: int

text \<open>
  The prompt handed to the content model. Its text is built from the user's data, the
  options and the clock; the record keeps those inputs instead of the text.
\<close>

record Prompt =
  p_userId :: string
  p_goals :: "Goal list option"
  p_income :: "Transaction list option"
  p_expenses :: "Transaction list option"
  p_difficulty :: "ChallengeDifficulty option"
  p_frequency :: "ChallengeFrequency option"
  p_count :: int
  p_now :: instant

record Challenge =
  c_id :: ident
  c_userId :: string
  c_type :: ChallengeType
  status :: ChallengeStatus
  difficulty :: ChallengeDifficulty
  frequency :: ChallengeFrequency
  title :: string
  description :: string
  rules :: ChallengeRules
  progress :: ChallengeProgress
  rewardPoints :: int
  startDate :: instant
  endDate :: instant
  createdAt :: instant
  updatedAt :: instant
  aiGenerated :: bool
  aiContext :: "Prompt option"

text \<open>\<open>rewards/types.ts\<close>\<close>

record UserPoints =
  up_id :: ident
  up_userId :: string
  points :: int
  totalEarned :: int
  totalSpent :: int
  up_createdAt :: instant
  up_updatedAt :: instant

datatype PointsType = earn | spend

record PointsTransaction =
  pt_id :: ident
  pt_userId :: string
  pt_points :: int
  pt_type :: PointsType
  pt_reason :: string
  pt_challengeId :: "ident option"
  pt_createdAt :: instant

section \<open>The in-memory database provider\<close>

text \<open>
  \<open>PostgreSQLProvider\<close> keeps each collection in a \<open>Map\<close> from id to record. A
  collection is the list of its records in insertion order; \<open>next_uuid\<close> is the supply
  of \<open>uuidv4()\<close>.
\<close>

record store =
  challenges :: "Challenge list"
  transactions :: "Transaction list"
  savings_goals :: "Goal list"
  user_points :: "UserPoints list"
  points_transactions :: "PointsTransaction list"
  next_uuid :: nat

datatype error = ChallengeNotFound | RecordNotFound | InsufficientPoints | AIError

datatype 'a outcome = Return 'a store | Thrown error store

fun store_of :: "'a outcome \<Rightarrow> store" where
  "store_of (Return _ s) = s"
| "store_of (Thrown _ s) = s"

definition db_find :: "('r \<Rightarrow> bool) \<Rightarrow> 'r list \<Rightarrow> 'r list" where
  "db_find q tbl = filter q tbl"

definition db_findOne :: "('r \<Rightarrow> ident) \<Rightarrow> ident \<Rightarrow> 'r list \<Rightarrow> 'r option" where
  "db_findOne key i tbl = find (\<lambda>r. key r = i) tbl"

definition db_insert :: "('r \<Rightarrow> ident) \<Rightarrow> 'r \<Rightarrow> 'r list \<Rightarrow> 'r list" where
  "db_insert key r tbl =
     (case find (\<lambda>x. key x = key r) tbl of
        None \<Rightarrow> tbl @ [r]
      | Some _ \<Rightarrow> map (\<lambda>x. if key x = key r then r else x) tbl)"

text \<open>\<open>update\<close> throws when the id is absent (\<open>None\<close>), else merges and returns the record.\<close>

definition db_update ::
  "('r \<Rightarrow> ident) \<Rightarrow> ident \<Rightarrow> ('r \<Rightarrow> 'r) \<Rightarrow> 'r list \<Rightarrow> ('r \<times> 'r list) option" where
  "db_update key i f tbl =
     (case find (\<lambda>x. key x = i) tbl of
        None \<Rightarrow> None
      | Some existing \<Rightarrow> Some (f existing, map (\<lambda>x. if key x = i then f existing else x) tbl))"

section \<open>RewardsService: the points ledger\<close>

definition createUserPoints :: "string \<Rightarrow> instant \<Rightarrow> store \<Rightarrow> UserPoints outcome" where
  "createUserPoints userId now s =
     (let userPoints = \<lparr>up_id = next_uuid s, up_userId = userId, points = 0,
                         totalEarned = 0, totalSpent = 0,
                         up_createdAt = now, up_updatedAt = now\<rparr>
      in Return userPoints
           (s\<lparr>user_points := db_insert up_id userPoints (user_points s),
              next_uuid := Suc (next_uuid s)\<rparr>))"

definition getUserPoints :: "string \<Rightarrow> instant \<Rightarrow> store \<Rightarrow> UserPoints outcome" where
  "getUserPoints userId now s =
     (case db_find (\<lambda>p. up_userId p = userId) (user_points s) of
        [] \<Rightarrow> createUserPoints userId now s
      | p # _ \<Rightarrow> Return p s)"

definition createPointsTransaction ::
  "string \<Rightarrow> int \<Rightarrow> PointsType \<Rightarrow> string \<Rightarrow> ident option \<Rightarrow> instant \<Rightarrow> store
     \<Rightarrow> PointsTransaction outcome" where
  "createPointsTransaction userId pts ty reason metadata now s =
     (let transaction = \<lparr>pt_id = next_uuid s, pt_userId = userId, pt_points = pts,
                          pt_type = ty, pt_reason = reason, pt_challengeId = metadata,
                          pt_createdAt = now\<rparr>
      in Return transaction
           (s\<lparr>points_transactions := db_insert pt_id transaction (points_transactions s),
              next_uuid := Suc (next_uuid s)\<rparr>))"

definition addPoints ::
  "string \<Rightarrow> int \<Rightarrow> string \<Rightarrow> ident option \<Rightarrow> instant \<Rightarrow> store \<Rightarrow> UserPoints outcome" where
  "addPoints userId pts reason metadata now s =
     (case getUserPoints userId now s of
        Thrown e s1 \<Rightarrow> Thrown e s1
      | Return userPoints s1 \<Rightarrow>
          (case db_update up_id (up_id userPoints)
                  (\<lambda>r. r\<lparr>points := points userPoints + pts,
                          totalEarned := totalEarned userPoints + pts,
                          up_updatedAt := now\<rparr>) (user_points s1) of
             None \<Rightarrow> Thrown RecordNotFound s1
           | Some (updated, tbl) \<Rightarrow>
               (case createPointsTransaction userId pts earn reason metadata now
                       (s1\<lparr>user_points := tbl\<rparr>) of
                  Thrown e s2 \<Rightarrow> Thrown e s2
                | Return _ s2 \<Rightarrow> Return updated s2)))"

definition subtractPoints ::
  "string \<Rightarrow> int \<Rightarrow> string \<Rightarrow> ident option \<Rightarrow> instant \<Rightarrow> store \<Rightarrow> UserPoints outcome" where
  "subtractPoints userId pts reason metadata now s =
     (case getUserPoints userId now s of
        Thrown e s1 \<Rightarrow> Thrown e s1
      | Return userPoints s1 \<Rightarrow>
          if points userPoints < pts then Thrown InsufficientPoints s1
          else
          (case db_update up_id (up_id userPoints)
                  (\<lambda>r. r\<lparr>points := points userPoints - pts,
                          totalSpent := totalSpent userPoints + pts,
                          up_updatedAt := now\<rparr>) (user_points s1) of
             None \<Rightarrow> Thrown RecordNotFound s1
           | Some (updated, tbl) \<Rightarrow>
               (case createPointsTransaction userId pts spend reason metadata now
                       (s1\<lparr>user_points := tbl\<rparr>) of
                  Thrown e s2 \<Rightarrow> Thrown e s2
                | Return _ s2 \<Rightarrow> Return updated s2)))"

text \<open>
  The balance a caller reads for a user: the \<open>points\<close> of the record \<open>getUserPoints\<close>
  returns, which is a fresh record with 0 points when the user has none yet.
\<close>

definition balance :: "string \<Rightarrow> store \<Rightarrow> int" where
  "balance userId s =
     (case db_find (\<lambda>p. up_userId p = userId) (user_points s) of
        [] \<Rightarrow> 0
      | p # _ \<Rightarrow> points p)"

text \<open>A sequence of ledger calls; a call that throws leaves the later calls to run.\<close>

datatype points_call =
    AddPoints string int string "ident option" instant
  | SubtractPoints string int string "ident option" instant

fun call_amount :: "points_call \<Rightarrow> int" where
  "call_amount (AddPoints _ n _ _ _) = n"
| "call_amount (SubtractPoints _ n _ _ _) = n"

fun run_call :: "points_call \<Rightarrow> store \<Rightarrow> store" where
  "run_call (AddPoints u n r m now) s = store_of (addPoints u n r m now s)"
| "run_call (SubtractPoints u n r m now) s = store_of (subtractPoints u n r m now s)"

fun run_calls :: "points_call list \<Rightarrow> store \<Rightarrow> store" where
  "run_calls [] s = s"
| "run_calls (c # cs) s = run_calls cs (run_call c s)"

definition points_nonneg :: "store \<Rightarrow> bool" where
  "points_nonneg s = list_all (\<lambda>p. 0 \<le> points p) (user_points s)"

definition empty_store :: store where
  "empty_store = \<lparr>challenges = [], transactions = [], savings_goals = [],
                   user_points = [], points_transactions = [], next_uuid = 0\<rparr>"


section \<open>ChallengesService: the progress evaluator\<close>

text \<open>\<open>x || 0\<close> on an optional number.\<close>

definition or0 :: "int option \<Rightarrow> int" where
  "or0 x = (case x of None \<Rightarrow> 0 | Some v \<Rightarrow> v)"

text \<open>\<open>.reduce((sum, t) => sum + t.amount, 0)\<close>\<close>

definition sum_amounts :: "Transaction list \<Rightarrow> int" where
  "sum_amounts ts = foldl (\<lambda>sum t. sum + t_amount t) 0 ts"

definition calculateStreakDays :: "instant \<Rightarrow> instant \<Rightarrow> int" where
  "calculateStreakDays startDate' now =
     (let diffTime = \<bar>now - startDate'\<bar> in diffTime div (1000 * 60 * 60 * 24))"

definition calculateProgress ::
  "Challenge \<Rightarrow> Transaction list \<Rightarrow> Goal list \<Rightarrow> instant \<Rightarrow> ChallengeProgress" where
  "calculateProgress challenge transactions' goals now =
     (let progress0 = (progress challenge)\<lparr>lastCheckedAt := Some now\<rparr>;
          relevantTransactions =
            filter (\<lambda>t. startDate challenge \<le> t_createdAt t) transactions'
      in if c_type challenge = SAVINGS then
           progress0\<lparr>currentAmount :=
             Some (sum_amounts (filter (\<lambda>t. t_type t = income) relevantTransactions))\<rparr>
         else if c_type challenge = SPENDING_LIMIT then
           progress0\<lparr>currentAmount :=
             Some (sum_amounts (filter (\<lambda>t. t_type t = expense) relevantTransactions))\<rparr>
         else if c_type challenge = CATEGORY_BAN \<or> c_type challenge = STREAK then
           (let categorySpending =
                  filter (\<lambda>t. t_type t = expense
                              \<and> Some (t_category t) = category (rules challenge))
                    relevantTransactions
            in progress0\<lparr>currentStreak :=
                 Some (if length categorySpending = 0
                       then calculateStreakDays (startDate challenge) now else 0)\<rparr>)
         else if c_type challenge = GOAL_CONTRIBUTION then
           (case find (\<lambda>g. Some (g_id g) = goalId (rules challenge)) goals of
              Some goal \<Rightarrow> progress0\<lparr>currentAmount := Some (g_currentAmount goal)\<rparr>
            | None \<Rightarrow> progress0)
         else if c_type challenge = INCOME_PERCENTAGE then
           progress0\<lparr>currentAmount :=
             Some (sum_amounts (filter (\<lambda>t. t_type t = income) relevantTransactions))\<rparr>
         else progress0)"

definition isChallengeCompleted :: "Challenge \<Rightarrow> ChallengeProgress \<Rightarrow> instant \<Rightarrow> bool" where
  "isChallengeCompleted challenge progress' now =
     (if c_type challenge = SAVINGS then
        or0 (targetAmount (rules challenge)) \<le> or0 (currentAmount progress')
      else if c_type challenge = SPENDING_LIMIT then
        endDate challenge \<le> now
        \<and> or0 (currentAmount progress') \<le> or0 (targetAmount (rules challenge))
      else if c_type challenge = CATEGORY_BAN \<or> c_type challenge = STREAK then
        or0 (streakDays (rules challenge)) \<le> or0 (currentStreak progress')
      else if c_type challenge = GOAL_CONTRIBUTION then
        or0 (targetAmount (rules challenge)) \<le> or0 (currentAmount progress')
      else if c_type challenge = INCOME_PERCENTAGE then
        or0 (targetAmount (rules challenge)) \<le> or0 (currentAmount progress')
      else False)"

definition isChallengeFailed :: "Challenge \<Rightarrow> ChallengeProgress \<Rightarrow> instant \<Rightarrow> bool" where
  "isChallengeFailed challenge progress' now =
     (if endDate challenge \<le> now then \<not> isChallengeCompleted challenge progress' now
      else if c_type challenge = SPENDING_LIMIT then
        or0 (targetAmount (rules challenge)) < or0 (currentAmount progress')
      else if c_type challenge = CATEGORY_BAN then
        or0 (currentStreak progress') = 0 \<and> startDate challenge < now
      else False)"

text \<open>
  The decision the loop body of \<open>checkProgress\<close> takes for one challenge: the progress it
  computes and which of its three branches it enters.
\<close>

datatype Verdict = COMPLETE | FAIL | CONTINUE

definition evaluate ::
  "Challenge \<Rightarrow> Transaction list \<Rightarrow> Goal list \<Rightarrow> instant \<Rightarrow> ChallengeProgress \<times> Verdict" where
  "evaluate challenge transactions' goals now =
     (let progress' = calculateProgress challenge transactions' goals now
      in (progress',
          if isChallengeCompleted challenge progress' now then COMPLETE
          else if isChallengeFailed challenge progress' now then FAIL
          else CONTINUE))"

section \<open>ChallengesService: persistence and the batch pass\<close>

record UpdateChallengeDto =
  u_status :: "ChallengeStatus option"
  u_progress :: "ChallengeProgress option"

definition getChallengeById :: "ident \<Rightarrow> store \<Rightarrow> Challenge option" where
  "getChallengeById i s = db_findOne c_id i (challenges s)"

text \<open>\<open>{ ...challenge, ...data, updatedAt: new Date() }\<close>\<close>

definition merge_dto :: "Challenge \<Rightarrow> UpdateChallengeDto \<Rightarrow> instant \<Rightarrow> Challenge" where
  "merge_dto challenge data now =
     challenge\<lparr>status := (case u_status data of None \<Rightarrow> status challenge | Some st \<Rightarrow> st),
               progress := (case u_progress data of None \<Rightarrow> progress challenge | Some p \<Rightarrow> p),
               updatedAt := now\<rparr>"

definition updateChallenge ::
  "ident \<Rightarrow> UpdateChallengeDto \<Rightarrow> instant \<Rightarrow> store \<Rightarrow> Challenge outcome" where
  "updateChallenge i data now s =
     (case getChallengeById i s of
        None \<Rightarrow> Thrown ChallengeNotFound s
      | Some challenge \<Rightarrow>
          (let updated = merge_dto challenge data now
           in case db_update c_id i (\<lambda>existing. updated) (challenges s) of
                None \<Rightarrow> Thrown RecordNotFound s
              | Some (_, tbl) \<Rightarrow> Return updated (s\<lparr>challenges := tbl\<rparr>)))"

fun expire_loop :: "Challenge list \<Rightarrow> instant \<Rightarrow> store \<Rightarrow> unit outcome" where
  "expire_loop [] now s = Return () s"
| "expire_loop (challenge # rest) now s =
     (if endDate challenge < now then
        (case updateChallenge (c_id challenge)
                \<lparr>u_status = Some EXPIRED, u_progress = None\<rparr> now s of
           Thrown e s1 \<Rightarrow> Thrown e s1
         | Return _ s1 \<Rightarrow> expire_loop rest now s1)
      else expire_loop rest now s)"

text \<open>
  The final \<open>filter\<close> reads the records fetched before the loop, which the updates do
  not touch (every provider hands out copies), as the source does.
\<close>

definition getActiveChallenges :: "string \<Rightarrow> instant \<Rightarrow> store \<Rightarrow> Challenge list outcome" where
  "getActiveChallenges userId now s =
     (let found = db_find (\<lambda>c. c_userId c = userId \<and> status c = ACTIVE) (challenges s)
      in case expire_loop found now s of
           Thrown e s1 \<Rightarrow> Thrown e s1
         | Return _ s1 \<Rightarrow> Return (filter (\<lambda>c. status c = ACTIVE) found) s1)"

text \<open>The reason strings carry the title; accents and emoji of the source text are left out.\<close>

definition completeChallenge ::
  "ident \<Rightarrow> ChallengeProgress \<Rightarrow> instant \<Rightarrow> store \<Rightarrow> Challenge outcome" where
  "completeChallenge challengeId progress' now s =
     (case getChallengeById challengeId s of
        None \<Rightarrow> Thrown ChallengeNotFound s
      | Some challenge \<Rightarrow>
          (let progress2 = progress'\<lparr>completedAt := Some now\<rparr>
           in case updateChallenge challengeId
                     \<lparr>u_status = Some COMPLETED, u_progress = Some progress2\<rparr> now s of
                Thrown e s1 \<Rightarrow> Thrown e s1
              | Return completed s1 \<Rightarrow>
                  (case addPoints (c_userId challenge) (rewardPoints challenge)
                          (''Desafio completado: '' @ title challenge)
                          (Some (c_id challenge)) now s1 of
                     Thrown e s2 \<Rightarrow> Thrown e s2
                   | Return _ s2 \<Rightarrow> Return completed s2)))"

definition failChallenge ::
  "ident \<Rightarrow> ChallengeProgress \<Rightarrow> instant \<Rightarrow> store \<Rightarrow> Challenge outcome" where
  "failChallenge challengeId progress' now s =
     updateChallenge challengeId \<lparr>u_status = Some FAILED, u_progress = Some progress'\<rparr> now s"

fun checkProgress_loop ::
  "Challenge list \<Rightarrow> Transaction list \<Rightarrow> Goal list \<Rightarrow> instant \<Rightarrow> Challenge list \<Rightarrow> store
     \<Rightarrow> Challenge list outcome" where
  "checkProgress_loop [] transactions' goals now updated s = Return updated s"
| "checkProgress_loop (challenge # rest) transactions' goals now updated s =
     (let progress' = calculateProgress challenge transactions' goals now
      in case (if isChallengeCompleted challenge progress' now then
                 completeChallenge (c_id challenge) progress' now s
               else if isChallengeFailed challenge progress' now then
                 failChallenge (c_id challenge) progress' now s
               else
                 updateChallenge (c_id challenge)
                   \<lparr>u_status = None, u_progress = Some progress'\<rparr> now s) of
           Thrown e s1 \<Rightarrow> Thrown e s1
         | Return c s1 \<Rightarrow> checkProgress_loop rest transactions' goals now (updated @ [c]) s1)"

definition checkProgress :: "string \<Rightarrow> instant \<Rightarrow> store \<Rightarrow> Challenge list outcome" where
  "checkProgress userId now s =
     (case getActiveChallenges userId now s of
        Thrown e s1 \<Rightarrow> Thrown e s1
      | Return activeChallenges s1 \<Rightarrow>
          (let transactions' = db_find (\<lambda>t. t_userId t = userId) (transactions s1);
               goals = db_find (\<lambda>g. g_userId g = userId) (savings_goals s1)
           in checkProgress_loop activeChallenges transactions' goals now [] s1))"


section \<open>ChallengesService: the generator\<close>

text \<open>\<open>CreateChallengeDto\<close>, the shape of a draft.\<close>

record ChallengeDraft =
  d_type :: ChallengeType
  d_difficulty :: ChallengeDifficulty
  d_frequency :: ChallengeFrequency
  d_title :: string
  d_description :: string
  d_rules :: ChallengeRules
  d_rewardPoints :: int
  d_startDate :: instant
  d_endDate :: instant

definition no_rules :: ChallengeRules where
  "no_rules = \<lparr>targetAmount = None, category = None, streakDays = None,
                percentage = None, goalId = None\<rparr>"

definition generateFallbackChallenges :: "instant \<Rightarrow> ChallengeDraft list" where
  "generateFallbackChallenges now =
     (let endDate' = now + 7 * 24 * 60 * 60 * 1000
      in [\<lparr>d_type = SPENDING_LIMIT, d_difficulty = EASY, d_frequency = WEEKLY,
            d_title = ''Gasto Consciente'',
            d_description = ''Manten tus gastos diarios bajo control durante esta semana'',
            d_rules = no_rules\<lparr>targetAmount := Some 500\<rparr>,
            d_rewardPoints = 50, d_startDate = now, d_endDate = endDate'\<rparr>,
          \<lparr>d_type = SAVINGS, d_difficulty = MEDIUM, d_frequency = WEEKLY,
            d_title = ''Ahorro Semanal'',
            d_description = ''Ahorra al menos $200 esta semana'',
            d_rules = no_rules\<lparr>targetAmount := Some 200\<rparr>,
            d_rewardPoints = 75, d_startDate = now, d_endDate = endDate'\<rparr>,
          \<lparr>d_type = CATEGORY_BAN, d_difficulty = HARD, d_frequency = WEEKLY,
            d_title = ''Semana sin Delivery'',
            d_description = ''No gastes en comida delivery durante 7 dias'',
            d_rules = no_rules\<lparr>category := Some ''delivery'', streakDays := Some 7\<rparr>,
            d_rewardPoints = 100, d_startDate = now, d_endDate = endDate'\<rparr>])"

text \<open>
  \<open>aiResponse.match(/\[[\s\S]*\]/)\<close>: the text from the first \<open>[\<close> to the last
  \<open>]\<close> after it, if there is one.
\<close>

definition match_array :: "string \<Rightarrow> string option" where
  "match_array aiResponse =
     (let from_open = dropWhile (\<lambda>c. c \<noteq> CHR ''['') aiResponse;
          matched = rev (dropWhile (\<lambda>c. c \<noteq> CHR '']'') (rev from_open))
      in if matched = [] then None else Some matched)"

text \<open>
  What \<open>JSON.parse\<close> yields on the matched text is a parameter of the model
  (\<open>None\<close> when it throws). The matched text starts with \<open>[\<close>, so a result is an array;
  an element is \<open>null\<close> or an object with the fields of the requested schema. The
  field values are whatever the reply holds: nothing says that \<open>j_type\<close> is one of the
  six challenge types.
\<close>

record JsonDraft =
  j_type :: string
  j_difficulty :: string
  j_frequency :: string
  j_title :: string
  j_description :: string
  j_rules :: "ChallengeRules option"
  j_rewardPoints :: "int option"
  j_startDate :: instant
  j_endDate :: instant

datatype JsonElement = JsonNull | JsonObject JsonDraft

type_synonym json_parser = "string \<Rightarrow> JsonElement list option"

text \<open>The body of the \<open>map\<close> callback; reading a field of \<open>null\<close> throws.\<close>

fun normalize :: "JsonElement \<Rightarrow> ChallengeDraft option" where
  "normalize JsonNull = None"
| "normalize (JsonObject c) =
     Some \<lparr>d_type = j_type c, d_difficulty = j_difficulty c, d_frequency = j_frequency c,
           d_title = j_title c, d_description = j_description c,
           d_rules = (case j_rules c of None \<Rightarrow> no_rules | Some r \<Rightarrow> r),
           d_rewardPoints = (case j_rewardPoints c of None \<Rightarrow> 50
                             | Some n \<Rightarrow> if n = 0 then 50 else n),
           d_startDate = j_startDate c, d_endDate = j_endDate c\<rparr>"

fun normalize_all :: "JsonElement list \<Rightarrow> ChallengeDraft list option" where
  "normalize_all [] = Some []"
| "normalize_all (c # cs) =
     (case normalize c of
        None \<Rightarrow> None
      | Some d \<Rightarrow> (case normalize_all cs of None \<Rightarrow> None | Some ds \<Rightarrow> Some (d # ds)))"

definition parseAIChallenges :: "json_parser \<Rightarrow> instant \<Rightarrow> string \<Rightarrow> ChallengeDraft list" where
  "parseAIChallenges JSON_parse now aiResponse =
     (case match_array aiResponse of
        None \<Rightarrow> generateFallbackChallenges now
      | Some jsonMatch \<Rightarrow>
          (case JSON_parse jsonMatch of
             None \<Rightarrow> generateFallbackChallenges now
           | Some parsed \<Rightarrow>
               (case normalize_all parsed of
                  None \<Rightarrow> generateFallbackChallenges now
                | Some drafts \<Rightarrow> drafts)))"

record GenerateChallengesInput =
  gi_userId :: string
  includeGoals :: "bool option"
  includeIncome :: "bool option"
  includeExpenses :: "bool option"
  gi_difficulty :: "ChallengeDifficulty option"
  gi_frequency :: "ChallengeFrequency option"
  count :: "int option"

text \<open>A destructuring default: \<open>{ x = d } = input\<close>.\<close>

definition default_to :: "'a \<Rightarrow> 'a option \<Rightarrow> 'a" where
  "default_to d x = (case x of None \<Rightarrow> d | Some v \<Rightarrow> v)"

text \<open>
  \<open>gatherUserData\<close> and \<open>buildAIPrompt\<close>: the data the prompt text is built from.
  \<open>count || 3\<close> turns a count of 0 into 3.
\<close>

definition buildAIPrompt :: "GenerateChallengesInput \<Rightarrow> instant \<Rightarrow> store \<Rightarrow> Prompt" where
  "buildAIPrompt input now s =
     (let userId = gi_userId input;
          count' = default_to 3 (count input);
          transactions' = db_find (\<lambda>t. t_userId t = userId) (transactions s)
      in \<lparr>p_userId = userId,
          p_goals = (if default_to True (includeGoals input)
                     then Some (db_find (\<lambda>g. g_userId g = userId) (savings_goals s))
                     else None),
          p_income = (if default_to True (includeIncome input)
                      then Some (filter (\<lambda>t. t_type t = income) transactions') else None),
          p_expenses = (if default_to True (includeExpenses input)
                        then Some (filter (\<lambda>t. t_type t = expense) transactions') else None),
          p_difficulty = gi_difficulty input,
          p_frequency = gi_frequency input,
          p_count = (if count' = 0 then 3 else count'),
          p_now = now\<rparr>)"

text \<open>The content model: the reply to a prompt, or \<open>None\<close> when the call throws.\<close>

type_synonym content_model = "Prompt \<Rightarrow> string option"

text \<open>The record \<open>generateChallenges\<close> builds from a draft and a fresh id.\<close>

definition new_challenge ::
  "ident \<Rightarrow> string \<Rightarrow> ChallengeDraft \<Rightarrow> Prompt \<Rightarrow> instant \<Rightarrow> Challenge" where
  "new_challenge uuid userId challengeData prompt now =
     \<lparr>c_id = uuid, c_userId = userId, c_type = d_type challengeData,
      status = ACTIVE, difficulty = d_difficulty challengeData,
      frequency = d_frequency challengeData, title = d_title challengeData,
      description = d_description challengeData, rules = d_rules challengeData,
      progress = \<lparr>currentAmount = Some 0, currentStreak = Some 0,
                   lastCheckedAt = Some now, completedAt = None\<rparr>,
      rewardPoints = d_rewardPoints challengeData,
      startDate = d_startDate challengeData, endDate = d_endDate challengeData,
      createdAt = now, updatedAt = now, aiGenerated = True,
      aiContext = Some prompt\<rparr>"

fun insert_drafts ::
  "ChallengeDraft list \<Rightarrow> string \<Rightarrow> Prompt \<Rightarrow> instant \<Rightarrow> Challenge list \<Rightarrow> store
     \<Rightarrow> Challenge list outcome" where
  "insert_drafts [] userId prompt now acc s = Return acc s"
| "insert_drafts (challengeData # rest) userId prompt now acc s =
     (let challenge = new_challenge (next_uuid s) userId challengeData prompt now
      in insert_drafts rest userId prompt now (acc @ [challenge])
           (s\<lparr>challenges := db_insert c_id challenge (challenges s),
              next_uuid := Suc (next_uuid s)\<rparr>))"

definition generateChallenges ::
  "content_model \<Rightarrow> json_parser \<Rightarrow> GenerateChallengesInput \<Rightarrow> instant \<Rightarrow> store
     \<Rightarrow> Challenge list outcome" where
  "generateChallenges ai JSON_parse input now s =
     (let prompt = buildAIPrompt input now s
      in case ai prompt of
           None \<Rightarrow> Thrown AIError s
         | Some aiResponse \<Rightarrow>
             insert_drafts (parseAIChallenges JSON_parse now aiResponse)
               (gi_userId input) prompt now [] s)"

section \<open>ChallengesService: the incremental pass\<close>

text \<open>\<open>toLowerCase\<close> on the ASCII letters, and \<open>String.prototype.includes\<close>.\<close>

definition toLowerCase :: "string \<Rightarrow> string" where
  "toLowerCase str =
     map (\<lambda>c. let n = (of_char c :: nat) in if 65 \<le> n \<and> n \<le> 90 then char_of (n + 32) else c) str"

fun starts_with :: "string \<Rightarrow> string \<Rightarrow> bool" where
  "starts_with str [] = True"
| "starts_with [] (p # ps) = False"
| "starts_with (x # xs) (p # ps) = (x = p \<and> starts_with xs ps)"

fun str_includes :: "string \<Rightarrow> string \<Rightarrow> bool" where
  "str_includes [] pat = starts_with [] pat"
| "str_includes (x # xs) pat = (starts_with (x # xs) pat \<or> str_includes xs pat)"

text \<open>
  One challenge against one transaction. The \<open>switch\<close> on the challenge type yields
  the updated copy and the two flags \<open>shouldUpdate\<close> and \<open>shouldComplete\<close>.
\<close>

definition progress_switch :: "Challenge \<Rightarrow> Transaction \<Rightarrow> instant \<Rightarrow> Challenge \<times> bool \<times> bool" where
  "progress_switch challenge transaction now =
     (if c_type challenge = ''savings'' then
        (if t_type transaction = income then
           (let currentAmount' = or0 (currentAmount (progress challenge));
                newAmount = currentAmount' + \<bar>t_amount transaction\<bar>
            in (challenge\<lparr>progress := (progress challenge)
                            \<lparr>currentAmount := Some newAmount,
                             lastCheckedAt := Some now\<rparr>\<rparr>,
                True,
                or0 (targetAmount (rules challenge)) \<le> newAmount))
         else (challenge, False, False))
      else if c_type challenge = ''spending_limit'' then
        (if t_type transaction = expense then
           (let category' = category (rules challenge)
            in if (case category' of None \<Rightarrow> True
                   | Some cat \<Rightarrow> cat = [] \<or> t_category transaction = cat) then
                 (let currentSpent = or0 (currentAmount (progress challenge));
                      newSpent = currentSpent + \<bar>t_amount transaction\<bar>;
                      updated1 = challenge\<lparr>progress := (progress challenge)
                                   \<lparr>currentAmount := Some newSpent,
                                    lastCheckedAt := Some now\<rparr>\<rparr>
                  in if or0 (targetAmount (rules challenge)) < newSpent
                     then (updated1\<lparr>status := FAILED\<rparr>, True, False)
                     else (updated1, True, False))
               else (challenge, False, False))
         else (challenge, False, False))
      else if c_type challenge = ''category_ban'' then
        (if t_type transaction = expense
            \<and> Some (t_category transaction) = category (rules challenge) then
           (challenge\<lparr>status := FAILED,
                      progress := (progress challenge)\<lparr>lastCheckedAt := Some now\<rparr>\<rparr>,
            True, False)
         else (challenge, False, False))
      else if c_type challenge = ''goal_contribution'' then
        (if t_type transaction = income
            \<and> str_includes (toLowerCase (t_description transaction)) ''ahorro'' then
           (let currentAmount' = or0 (currentAmount (progress challenge));
                newAmount = currentAmount' + \<bar>t_amount transaction\<bar>
            in (challenge\<lparr>progress := (progress challenge)
                            \<lparr>currentAmount := Some newAmount,
                             lastCheckedAt := Some now\<rparr>\<rparr>,
                True,
                or0 (targetAmount (rules challenge)) \<le> newAmount))
         else (challenge, False, False))
      else if c_type challenge = ''streak'' then
        (if t_type transaction = expense
            \<and> Some (t_category transaction) = category (rules challenge) then
           (challenge\<lparr>progress := \<lparr>currentAmount = None, currentStreak = Some 0,
                                    lastCheckedAt = Some now, completedAt = None\<rparr>,
                      status := FAILED\<rparr>,
            True, False)
         else (challenge, False, False))
      else (challenge, False, False))"

text \<open>
  After the \<open>switch\<close>: the reward (an error of \<open>addPoints\<close> is caught and logged),
  then the write of status and progress. Every error inside is caught, so the call
  always returns: the updated copy, or \<open>None\<close> for \<open>null\<close>.
\<close>

definition updateChallengeProgressWithTransaction ::
  "Challenge \<Rightarrow> Transaction \<Rightarrow> instant \<Rightarrow> store \<Rightarrow> Challenge option \<times> store" where
  "updateChallengeProgressWithTransaction challenge transaction now s =
     (let (updated, shouldUpdate, shouldComplete) = progress_switch challenge transaction now;
          updated2 = (if shouldComplete then updated\<lparr>status := COMPLETED\<rparr> else updated);
          s1 = (if shouldComplete then
                  store_of (addPoints (c_userId challenge) (rewardPoints challenge)
                              (''Challenge completado: '' @ title challenge)
                              (Some (c_id challenge)) now s)
                else s)
      in if shouldUpdate \<or> shouldComplete then
           (case db_update c_id (c_id challenge)
                   (\<lambda>existing. existing\<lparr>status := status updated2,
                                         progress := progress updated2,
                                         updatedAt := now\<rparr>) (challenges s1) of
              None \<Rightarrow> (None, s1)
            | Some (_, tbl) \<Rightarrow> (Some updated2, s1\<lparr>challenges := tbl\<rparr>))
         else (None, s1))"

fun incremental_loop ::
  "Challenge list \<Rightarrow> Transaction \<Rightarrow> instant \<Rightarrow> Challenge list \<Rightarrow> store
     \<Rightarrow> Challenge list \<times> store" where
  "incremental_loop [] latestTransaction now updatedChallenges s = (updatedChallenges, s)"
| "incremental_loop (challenge # rest) latestTransaction now updatedChallenges s =
     (case updateChallengeProgressWithTransaction challenge latestTransaction now s of
        (Some updated, s1) \<Rightarrow>
          incremental_loop rest latestTransaction now (updatedChallenges @ [updated]) s1
      | (None, s1) \<Rightarrow> incremental_loop rest latestTransaction now updatedChallenges s1)"

definition empty_input :: "string \<Rightarrow> GenerateChallengesInput" where
  "empty_input userId =
     \<lparr>gi_userId = userId, includeGoals = None, includeIncome = None, includeExpenses = None,
      gi_difficulty = None, gi_frequency = None, count = None\<rparr>"

text \<open>
  The newest transaction of a user: the sort by \<open>createdAt\<close>, newest first, is
  stable, so among the newest records the first inserted one is taken. There is none
  exactly when the user has no transaction, which is the early return of the source.
\<close>

definition latestTransaction :: "string \<Rightarrow> store \<Rightarrow> Transaction option" where
  "latestTransaction userId s =
     (let allTransactions = db_find (\<lambda>t. t_userId t = userId) (transactions s)
      in case sort_key (\<lambda>t. - t_createdAt t) allTransactions of
           [] \<Rightarrow> None
         | latest # _ \<Rightarrow> Some latest)"

text \<open>The last block of the pass: fewer than 3 active challenges are topped up.\<close>

definition top_up ::
  "content_model \<Rightarrow> json_parser \<Rightarrow> string \<Rightarrow> instant \<Rightarrow> Challenge list \<Rightarrow> store
     \<Rightarrow> Challenge list outcome" where
  "top_up ai JSON_parse userId now remainingActive s =
     (if length remainingActive < 3 then
        (case generateChallenges ai JSON_parse
                ((empty_input userId)\<lparr>count := Some (3 - int (length remainingActive))\<rparr>)
                now s of
           Thrown e s1 \<Rightarrow> Thrown e s1
         | Return newChallenges s1 \<Rightarrow> Return (remainingActive @ newChallenges) s1)
      else Return remainingActive s)"

definition updateChallengesWithNewData ::
  "content_model \<Rightarrow> json_parser \<Rightarrow> string \<Rightarrow> instant \<Rightarrow> store \<Rightarrow> Challenge list outcome" where
  "updateChallengesWithNewData ai JSON_parse userId now s =
     (case getActiveChallenges userId now s of
        Thrown e s1 \<Rightarrow> Thrown e s1
      | Return activeChallenges s1 \<Rightarrow>
          (case latestTransaction userId s1 of
             None \<Rightarrow> Return activeChallenges s1
           | Some latest \<Rightarrow>
               (let (updatedChallenges, s2) =
                      incremental_loop activeChallenges latest now [] s1
                in case getActiveChallenges userId now s2 of
                     Thrown e s3 \<Rightarrow> Thrown e s3
                   | Return remainingActive s3 \<Rightarrow>
                       top_up ai JSON_parse userId now remainingActive s3)))"

section \<open>Sequences of calls\<close>

text \<open>
  Calls that run one after the other: each pass has returned before the next call
  arrives. The calls are the two evaluation passes and, between them, the insert of a
  transaction or of a goal's state. A pass that throws leaves the store as it was at the
  throw. \<open>createTransaction\<close> is \<open>RecordTransaction\<close> followed by
  \<open>UpdateChallengesWithNewData\<close> when nothing else arrives before its pass has
  ended; the section on passes under way covers the other orders.
\<close>

datatype event =
    CheckProgress string instant
  | UpdateChallengesWithNewData string instant
  | RecordTransaction Transaction
  | SaveGoal Goal

fun run_event :: "content_model \<Rightarrow> json_parser \<Rightarrow> event \<Rightarrow> store \<Rightarrow> store" where
  "run_event ai JSON_parse (CheckProgress userId now) s = store_of (checkProgress userId now s)"
| "run_event ai JSON_parse (UpdateChallengesWithNewData userId now) s =
     store_of (updateChallengesWithNewData ai JSON_parse userId now s)"
| "run_event ai JSON_parse (RecordTransaction t) s =
     s\<lparr>transactions := db_insert t_id t (transactions s)\<rparr>"
| "run_event ai JSON_parse (SaveGoal g) s =
     s\<lparr>savings_goals := db_insert g_id g (savings_goals s)\<rparr>"

fun run_events :: "content_model \<Rightarrow> json_parser \<Rightarrow> event list \<Rightarrow> store \<Rightarrow> store" where
  "run_events ai JSON_parse [] s = s"
| "run_events ai JSON_parse (e # es) s = run_events ai JSON_parse es (run_event ai JSON_parse e s)"

section \<open>Passes under way\<close>

text \<open>
  \<open>TransactionService.createTransaction\<close> inserts the transaction and starts
  \<open>updateUserChallenges\<close>, hence \<open>updateChallengesWithNewData\<close>, without
  awaiting it; a pass gives way to the other calls at each of its \<open>await\<close>s. A pass
  under way is kept with what it holds in its local variables: the copies of the
  challenges it fetched, the transactions and goals it read, the list it has collected.
  It is resumed in steps: the fetch up to the loop, then one turn of the loop at a time,
  then what follows the loop. Each step runs several \<open>await\<close>s of the source in
  one piece, so every order of steps here is an order the source allows.
\<close>

datatype pass =
    CheckProgressCalled string instant
  | CheckProgressLoop "Challenge list" "Transaction list" "Goal list" instant "Challenge list"
  | UpdateCalled string instant
  | UpdateLoop string instant "Challenge list" Transaction "Challenge list"

text \<open>
  One step of a pass: the pass as it is suspended next, or \<open>None\<close> when it has
  returned or thrown, and the store it leaves.
\<close>

fun advance :: "content_model \<Rightarrow> json_parser \<Rightarrow> pass \<Rightarrow> store \<Rightarrow> pass option \<times> store" where
  "advance ai JSON_parse (CheckProgressCalled userId now) s =
     (case getActiveChallenges userId now s of
        Thrown e s1 \<Rightarrow> (None, s1)
      | Return activeChallenges s1 \<Rightarrow>
          (Some (CheckProgressLoop activeChallenges
                   (db_find (\<lambda>t. t_userId t = userId) (transactions s1))
                   (db_find (\<lambda>g. g_userId g = userId) (savings_goals s1)) now []),
           s1))"
| "advance ai JSON_parse (CheckProgressLoop [] transactions' goals now updated) s = (None, s)"
| "advance ai JSON_parse (CheckProgressLoop (challenge # rest) transactions' goals now updated) s =
     (case checkProgress_loop [challenge] transactions' goals now updated s of
        Thrown e s1 \<Rightarrow> (None, s1)
      | Return updated' s1 \<Rightarrow>
          (Some (CheckProgressLoop rest transactions' goals now updated'), s1))"
| "advance ai JSON_parse (UpdateCalled userId now) s =
     (case getActiveChallenges userId now s of
        Thrown e s1 \<Rightarrow> (None, s1)
      | Return activeChallenges s1 \<Rightarrow>
          (case latestTransaction userId s1 of
             None \<Rightarrow> (None, s1)
           | Some latest \<Rightarrow> (Some (UpdateLoop userId now activeChallenges latest []), s1)))"
| "advance ai JSON_parse (UpdateLoop userId now [] latest updatedChallenges) s =
     (case getActiveChallenges userId now s of
        Thrown e s3 \<Rightarrow> (None, s3)
      | Return remainingActive s3 \<Rightarrow>
          (None, store_of (top_up ai JSON_parse userId now remainingActive s3)))"
| "advance ai JSON_parse (UpdateLoop userId now (challenge # rest) latest updatedChallenges) s =
     (case incremental_loop [challenge] latest now updatedChallenges s of
        (updatedChallenges', s1) \<Rightarrow>
          (Some (UpdateLoop userId now rest latest updatedChallenges'), s1))"

text \<open>
  What happens next: a transaction is created (the insert, and the pass it starts), a
  call of \<open>checkProgress\<close> arrives, or the pass at a position of the list of passes
  under way is resumed.
\<close>

datatype action =
    CreateTransaction Transaction instant
  | CallCheckProgress string instant
  | Resume nat

fun act :: "content_model \<Rightarrow> json_parser \<Rightarrow> action \<Rightarrow> store \<times> pass list \<Rightarrow> store \<times> pass list" where
  "act ai JSON_parse (CreateTransaction t now) (s, passes) =
     (s\<lparr>transactions := db_insert t_id t (transactions s)\<rparr>,
      passes @ [UpdateCalled (t_userId t) now])"
| "act ai JSON_parse (CallCheckProgress userId now) (s, passes) =
     (s, passes @ [CheckProgressCalled userId now])"
| "act ai JSON_parse (Resume i) (s, passes) =
     (if i < length passes then
        (case advance ai JSON_parse (passes ! i) s of
           (None, s1) \<Rightarrow> (s1, take i passes @ drop (Suc i) passes)
         | (Some p, s1) \<Rightarrow> (s1, passes[i := p]))
      else (s, passes))"

fun run_actions ::
  "content_model \<Rightarrow> json_parser \<Rightarrow> action list \<Rightarrow> store \<times> pass list \<Rightarrow> store \<times> pass list" where
  "run_actions ai JSON_parse [] sys = sys"
| "run_actions ai JSON_parse (a # as) sys =
     run_actions ai JSON_parse as (act ai JSON_parse a sys)"

section \<open>Well-formed stores and the effect of a pass on one record\<close>

text \<open>
  A collection is a \<open>Map\<close> keyed by id, and ids come from \<open>uuidv4()\<close>: the ids of the
  challenges are distinct, and every id in use was issued before.
\<close>

definition wf_ledger :: "store \<Rightarrow> bool" where
  "wf_ledger s =
     (list_all (\<lambda>p. up_id p < next_uuid s) (user_points s)
      \<and> list_all (\<lambda>t. pt_id t < next_uuid s) (points_transactions s))"

definition wf_store :: "store \<Rightarrow> bool" where
  "wf_store s =
     (distinct (map c_id (challenges s))
      \<and> list_all (\<lambda>c. c_id c < next_uuid s) (challenges s)
      \<and> wf_ledger s)"

text \<open>What \<open>getActiveChallenges\<close> writes for an active record it fetched.\<close>

definition expire :: "instant \<Rightarrow> Challenge \<Rightarrow> Challenge" where
  "expire now d =
     (if endDate d < now then merge_dto d \<lparr>u_status = Some EXPIRED, u_progress = None\<rparr> now
      else d)"

text \<open>
  What \<open>checkProgress\<close> leaves in the store for an active record \<open>d\<close> it fetched:
  the loop decides on the fetched copy and writes over the stored, possibly expired, one.
\<close>

definition batch_record :: "Transaction list \<Rightarrow> Goal list \<Rightarrow> instant \<Rightarrow> Challenge \<Rightarrow> Challenge" where
  "batch_record ts gs now d =
     (let p = calculateProgress d ts gs now
      in if isChallengeCompleted d p now then
           merge_dto (expire now d)
             \<lparr>u_status = Some COMPLETED, u_progress = Some (p\<lparr>completedAt := Some now\<rparr>)\<rparr> now
         else if isChallengeFailed d p now then
           merge_dto (expire now d) \<lparr>u_status = Some FAILED, u_progress = Some p\<rparr> now
         else merge_dto (expire now d) \<lparr>u_status = None, u_progress = Some p\<rparr> now)"

text \<open>
  What the loop of \<open>updateChallengesWithNewData\<close> leaves in the store for an active
  record \<open>d\<close> it fetched, and whether it rewards it.
\<close>

definition incremental_completes :: "Transaction \<Rightarrow> instant \<Rightarrow> Challenge \<Rightarrow> bool" where
  "incremental_completes t now d = snd (snd (progress_switch d t now))"

definition incremental_record :: "Transaction \<Rightarrow> instant \<Rightarrow> Challenge \<Rightarrow> Challenge" where
  "incremental_record t now d =
     (let (updated, shouldUpdate, shouldComplete) = progress_switch d t now;
          updated2 = (if shouldComplete then updated\<lparr>status := COMPLETED\<rparr> else updated)
      in if shouldUpdate \<or> shouldComplete then
           (expire now d)\<lparr>status := status updated2, progress := progress updated2,
                           updatedAt := now\<rparr>
         else expire now d)"

text \<open>The second \<open>getActiveChallenges\<close> of the pass expires what is still active.\<close>

definition expire_active :: "instant \<Rightarrow> Challenge \<Rightarrow> Challenge" where
  "expire_active now d = (if status d = ACTIVE then expire now d else d)"

text \<open>The rewards logged for a challenge id.\<close>

definition awards :: "ident \<Rightarrow> store \<Rightarrow> nat" where
  "awards k s =
     length (filter (\<lambda>t. pt_type t = earn \<and> pt_challengeId t = Some k) (points_transactions s))"

definition active_count :: "string \<Rightarrow> store \<Rightarrow> nat" where
  "active_count userId s =
     length (db_find (\<lambda>c. c_userId c = userId \<and> status c = ACTIVE) (challenges s))"

section \<open>Vocabulary of the properties\<close>


text \<open>
  The replies on which \<open>parseAIChallenges\<close> reaches its \<open>catch\<close>: no bracketed
  text, a \<open>JSON.parse\<close> error, or a \<open>null\<close> element.
\<close>

definition unparseable :: "json_parser \<Rightarrow> string \<Rightarrow> bool" where
  "unparseable JSON_parse aiResponse =
     (case match_array aiResponse of
        None \<Rightarrow> True
      | Some jsonMatch \<Rightarrow>
          (case JSON_parse jsonMatch of
             None \<Rightarrow> True
           | Some parsed \<Rightarrow> list_ex (\<lambda>c. c = JsonNull) parsed))"

text \<open>The records \<open>generateChallenges\<close> inserts for a list of drafts, ids counting up.\<close>

fun drafted :: "ident \<Rightarrow> string \<Rightarrow> Prompt \<Rightarrow> instant \<Rightarrow> ChallengeDraft list \<Rightarrow> Challenge list" where
  "drafted uuid userId prompt now [] = []"
| "drafted uuid userId prompt now (d # ds) =
     new_challenge uuid userId d prompt now # drafted (Suc uuid) userId prompt now ds"

text \<open>
  The table after a loop over fetched copies \<open>cs\<close> that writes \<open>f c\<close> over the
  stored record with the id of \<open>c\<close>.
\<close>

definition apply_local ::
  "(Challenge \<Rightarrow> Challenge) \<Rightarrow> Challenge list \<Rightarrow> Challenge list \<Rightarrow> Challenge list" where
  "apply_local f cs tbl =
     map (\<lambda>x. case find (\<lambda>c. c_id c = c_id x) cs of None \<Rightarrow> x | Some c \<Rightarrow> f c) tbl"

text \<open>
  What \<open>updateChallengesWithNewData\<close> leaves in the store for an active record it
  fetched, given the user's newest transaction if there is one.
\<close>

definition incremental_final :: "Transaction option \<Rightarrow> instant \<Rightarrow> Challenge \<Rightarrow> Challenge" where
  "incremental_final latest now d =
     (case latest of
        None \<Rightarrow> expire now d
      | Some t \<Rightarrow> expire_active now (incremental_record t now d))"

text \<open>
  The ledger agrees with the challenges: one reward logged for each COMPLETED challenge
  and none for any other; and every logged reward names an id that was issued.
\<close>

definition rewarded_once :: "store \<Rightarrow> bool" where
  "rewarded_once s =
     list_all (\<lambda>c. awards (c_id c) s = (if status c = COMPLETED then 1 else 0)) (challenges s)"

definition awards_issued :: "store \<Rightarrow> bool" where
  "awards_issued s =
     list_all (\<lambda>t. case pt_challengeId t of None \<Rightarrow> True | Some k \<Rightarrow> k < next_uuid s)
       (points_transactions s)"

text \<open>
  The two ways to evaluate a history at one instant: record each transaction and run the
  incremental pass after it, or record them all and run the batch pass once.
\<close>

fun incremental_events :: "Transaction list \<Rightarrow> string \<Rightarrow> instant \<Rightarrow> event list" where
  "incremental_events [] userId now = []"
| "incremental_events (t # ts) userId now =
     RecordTransaction t # UpdateChallengesWithNewData userId now
       # incremental_events ts userId now"

definition batch_events :: "Transaction list \<Rightarrow> string \<Rightarrow> instant \<Rightarrow> event list" where
  "batch_events ts userId now = map RecordTransaction ts @ [CheckProgress userId now]"

text \<open>
  For a SAVINGS or SPENDING_LIMIT challenge: the transactions that count towards its
  amount, their total over a history, when an amount settles the challenge, and the
  status it then gets.
\<close>

definition counted :: "Challenge \<Rightarrow> Transaction \<Rightarrow> bool" where
  "counted d t = (if c_type d = SAVINGS then t_type t = income else t_type t = expense)"

definition counted_total :: "Challenge \<Rightarrow> Transaction list \<Rightarrow> int" where
  "counted_total d ts = sum_list (map t_amount (filter (counted d) ts))"

definition limit_reached :: "Challenge \<Rightarrow> int \<Rightarrow> bool" where
  "limit_reached d a =
     (if c_type d = SAVINGS then or0 (targetAmount (rules d)) \<le> a
      else or0 (targetAmount (rules d)) < a)"

definition reached_status :: "Challenge \<Rightarrow> ChallengeStatus" where
  "reached_status d = (if c_type d = SAVINGS then COMPLETED else FAILED)"

text \<open>The types on which the two paths are compared.\<close>

definition plain_amount_challenge :: "Challenge \<Rightarrow> bool" where
  "plain_amount_challenge d =
     (c_type d = SAVINGS \<or> (c_type d = SPENDING_LIMIT \<and> category (rules d) = None))"

section \<open>Example data\<close>

text \<open>A day in milliseconds, and a base challenge and transaction the examples vary.\<close>

definition day_ms :: int where
  "day_ms = 1000 * 60 * 60 * 24"

definition no_progress :: ChallengeProgress where
  "no_progress = \<lparr>currentAmount = Some 0, currentStreak = Some 0,
                   lastCheckedAt = Some 0, completedAt = None\<rparr>"

definition base_challenge :: Challenge where
  "base_challenge =
     \<lparr>c_id = 0, c_userId = ''ana'', c_type = SAVINGS, status = ACTIVE,
      difficulty = EASY, frequency = WEEKLY, title = ''reto'', description = ''reto'',
      rules = no_rules, progress = no_progress, rewardPoints = 50,
      startDate = 0, endDate = 7 * day_ms, createdAt = 0, updatedAt = 0,
      aiGenerated = False, aiContext = None\<rparr>"

definition base_transaction :: Transaction where
  "base_transaction =
     \<lparr>t_id = 100, t_userId = ''ana'', t_amount = 0, t_description = ''compra'',
      t_category = ''taxi'', t_type = expense, t_createdAt = 0\<rparr>"

text \<open>
  A reply whose array holds one object with a type outside the enum, and a parser that
  reads that text as \<open>JSON.parse\<close> does (the two ISO dates are 0 and 7 days).
\<close>

definition bogus_array :: string where
  "bogus_array = ''[{\"type\":\"bogus\",\"difficulty\":\"easy\",\"frequency\":\"weekly\",\"title\":\"t\",\"description\":\"d\",\"rewardPoints\":10,\"startDate\":\"1970-01-01T00:00:00.000Z\",\"endDate\":\"1970-01-08T00:00:00.000Z\"}]''"

definition bogus_reply :: string where
  "bogus_reply = ''Claro: '' @ bogus_array @ '' listo''"

definition bogus_object :: JsonDraft where
  "bogus_object = \<lparr>j_type = ''bogus'', j_difficulty = ''easy'', j_frequency = ''weekly'',
                    j_title = ''t'', j_description = ''d'', j_rules = None,
                    j_rewardPoints = Some 10, j_startDate = 0, j_endDate = 7 * day_ms\<rparr>"

definition bogus_parser :: json_parser where
  "bogus_parser txt = (if txt = bogus_array then Some [JsonObject bogus_object] else None)"

text \<open>A store with one active SAVINGS challenge of target 200 and nothing else.\<close>

definition savings_store :: store where
  "savings_store =
     empty_store\<lparr>challenges := [base_challenge\<lparr>rules := no_rules\<lparr>targetAmount := Some 200\<rparr>\<rparr>],
                 next_uuid := 1\<rparr>"

text \<open>A content model that never answers with an array.\<close>

definition silent_model :: content_model where
  "silent_model prompt = Some ''Lo siento, no puedo ayudar''"

text \<open>
  A run on \<open>savings_store\<close>: an income of 250 is recorded, then an incremental pass, a
  batch pass and another incremental pass follow.
\<close>

definition sample_events :: "event list" where
  "sample_events =
     [RecordTransaction (base_transaction\<lparr>t_amount := 250, t_type := income,
                                          t_createdAt := 10\<rparr>),
      UpdateChallengesWithNewData ''ana'' 20,
      CheckProgress ''ana'' 30,
      UpdateChallengesWithNewData ''ana'' 40]"

text \<open>
  A store with a CATEGORY_BAN challenge on delivery over 7 days (the rules of the fallback
  template) and a SAVINGS challenge of target 200, both active, and no transaction.
\<close>

definition ban_store :: store where
  "ban_store =
     empty_store\<lparr>challenges :=
        [base_challenge\<lparr>c_type := CATEGORY_BAN,
           rules := no_rules\<lparr>category := Some ''delivery'', streakDays := Some 7\<rparr>\<rparr>,
         base_challenge\<lparr>c_id := 1, rules := no_rules\<lparr>targetAmount := Some 200\<rparr>\<rparr>],
        next_uuid := 2\<rparr>"

text \<open>\<open>savings_store\<close> after an expense of 10 was recorded.\<close>

definition expense_store :: store where
  "expense_store =
     run_event silent_model bogus_parser
       (RecordTransaction (base_transaction\<lparr>t_amount := 10, t_createdAt := 10\<rparr>)) savings_store"

text \<open>
  An income of 250 is created and a call of \<open>checkProgress\<close> arrives: in the first
  order every pass is resumed to its end before the next call arrives, in the second the
  two passes take turns.
\<close>

definition income_250 :: Transaction where
  "income_250 = base_transaction\<lparr>t_amount := 250, t_type := income, t_createdAt := 10\<rparr>"

definition one_after_the_other :: "action list" where
  "one_after_the_other =
     [CreateTransaction income_250 20, Resume 0, Resume 0, Resume 0,
      CallCheckProgress ''ana'' 20, Resume 0, Resume 0, Resume 0, Resume 0, Resume 0]"

definition taking_turns :: "action list" where
  "taking_turns =
     [CreateTransaction income_250 20, CallCheckProgress ''ana'' 20,
      Resume 0, Resume 1, Resume 0, Resume 1, Resume 0, Resume 0]"

text \<open>\<open>savings_store\<close> with an expense of another user on record.\<close>

definition shared_store :: store where
  "shared_store =
     savings_store\<lparr>transactions :=
        [base_transaction\<lparr>t_id := 7, t_userId := ''bea'', t_amount := 40, t_createdAt := 5\<rparr>]\<rparr>"

text \<open>Two incomes of 250 and 100, recorded in this order.\<close>

definition two_incomes :: "Transaction list" where
  "two_incomes =
     [base_transaction\<lparr>t_amount := 250, t_type := income, t_createdAt := 10\<rparr>,
      base_transaction\<lparr>t_id := 101, t_amount := 100, t_type := income, t_createdAt := 20\<rparr>]"

section \<open>Properties of the points ledger\<close>

lemma db_insert_list_all:
  "list_all P tbl \<Longrightarrow> P r \<Longrightarrow> list_all P (db_insert key r tbl)"
  by (auto simp: db_insert_def list_all_iff split: option.splits)

lemma db_update_list_all:
  "db_update key i f tbl = Some (r, tbl') \<Longrightarrow> list_all P tbl \<Longrightarrow> (\<And>x. P (f x))
     \<Longrightarrow> list_all P tbl'"
  by (auto simp: db_update_def list_all_iff split: option.splits)

lemma db_update_member:
  "x \<in> set tbl \<Longrightarrow> key x = i \<Longrightarrow> db_update key i f tbl \<noteq> None"
  by (auto simp: db_update_def find_None_iff split: option.splits)

lemma db_insert_member: "r \<in> set (db_insert key r tbl)"
proof (cases "find (\<lambda>x. key x = key r) tbl")
  case None then show ?thesis by (simp add: db_insert_def)
next
  case (Some y)
  then have "y \<in> set tbl" "key y = key r"
    by (auto simp: find_Some_iff)
  then show ?thesis using Some by (force simp: db_insert_def)
qed

lemma db_insert_subset: "set (db_insert key r tbl) \<subseteq> insert r (set tbl)"
  by (auto simp: db_insert_def split: option.splits)

lemma getUserPoints_cases:
  obtains p s1 where "getUserPoints u now s = Return p s1" "p \<in> set (user_points s1)"
    "points_nonneg s \<longrightarrow> points_nonneg s1"
    "points_transactions s1 = points_transactions s"
    "balance u s1 = balance u s" "points p = balance u s"
    "up_userId p = u"
proof (cases "db_find (\<lambda>p. up_userId p = u) (user_points s)")
  case Nil
  let ?p = "\<lparr>up_id = next_uuid s, up_userId = u, points = 0,
                         totalEarned = 0, totalSpent = 0,
                         up_createdAt = now, up_updatedAt = now\<rparr>"
  let ?s1 = "s\<lparr>user_points := db_insert up_id ?p (user_points s),
              next_uuid := Suc (next_uuid s)\<rparr>"
  have g: "getUserPoints u now s = Return ?p ?s1"
    using Nil by (simp add: getUserPoints_def createUserPoints_def Let_def)
  have none: "\<forall>x\<in>set (user_points s). up_userId x \<noteq> u"
    using Nil by (auto simp: db_find_def filter_empty_conv)
  have mem: "?p \<in> set (user_points ?s1)"
    by (simp add: db_insert_member)
  have nn: "points_nonneg s \<longrightarrow> points_nonneg ?s1"
    by (simp add: points_nonneg_def db_insert_list_all)
  define tbl where "tbl = db_insert up_id ?p (user_points s)"
  have in_tbl: "?p \<in> set tbl" and sub: "set tbl \<subseteq> insert ?p (set (user_points s))"
    unfolding tbl_def by (rule db_insert_member, rule db_insert_subset)
  have only: "points x = 0" if "x \<in> set tbl" "up_userId x = u" for x
  proof -
    from that sub none have "x = ?p" by blast
    then show ?thesis by simp
  qed
  have "filter (\<lambda>p. up_userId p = u) tbl \<noteq> []"
    using in_tbl by (force simp: filter_empty_conv)
  then obtain y ys where ys: "filter (\<lambda>p. up_userId p = u) tbl = y # ys"
    by (cases "filter (\<lambda>p. up_userId p = u) tbl") auto
  then have "y \<in> set (filter (\<lambda>p. up_userId p = u) tbl)" by simp
  then have "points y = 0" using only by simp
  then have b1: "balance u ?s1 = 0"
    using ys by (simp add: balance_def db_find_def tbl_def)
  have b0: "balance u s = 0" using Nil by (simp add: balance_def)
  show ?thesis
    by (rule that[OF g mem nn]) (simp_all add: b1 b0)
next
  case (Cons p ps)
  have g: "getUserPoints u now s = Return p s"
    using Cons by (simp add: getUserPoints_def)
  have "p \<in> set (filter (\<lambda>p. up_userId p = u) (user_points s))"
    using Cons by (simp add: db_find_def)
  then have mem: "p \<in> set (user_points s)" and uid: "up_userId p = u" by auto
  show ?thesis
    by (rule that[OF g mem]) (use Cons uid in \<open>simp_all add: balance_def\<close>)
qed


lemma balance_nonneg: "points_nonneg s \<Longrightarrow> 0 \<le> balance u s"
proof (cases "db_find (\<lambda>p. up_userId p = u) (user_points s)")
  case Nil then show ?thesis by (simp add: balance_def)
next
  case (Cons p ps)
  then have "p \<in> set (filter (\<lambda>p. up_userId p = u) (user_points s))"
    by (simp add: db_find_def)
  moreover assume "points_nonneg s"
  ultimately have "0 \<le> points p" by (simp add: points_nonneg_def list_all_iff)
  then show ?thesis using Cons by (simp add: balance_def)
qed

lemma createPointsTransaction_user_points:
  "createPointsTransaction u n ty r m now s = Return t s' \<Longrightarrow> user_points s' = user_points s"
  by (auto simp: createPointsTransaction_def Let_def)

lemma createPointsTransaction_Return:
  "\<exists>t s'. createPointsTransaction u n ty r m now s = Return t s'"
  by (simp add: createPointsTransaction_def Let_def)

lemma addPoints_nonneg:
  assumes "points_nonneg s" "0 \<le> n"
  shows "points_nonneg (store_of (addPoints u n r m now s))"
proof -
  obtain p s1 where g: "getUserPoints u now s = Return p s1" and mem: "p \<in> set (user_points s1)"
    and nn: "points_nonneg s \<longrightarrow> points_nonneg s1"
    by (rule getUserPoints_cases)
  have p0: "0 \<le> points p" using nn assms(1) mem by (simp add: points_nonneg_def list_all_iff)
  let ?f = "\<lambda>r. r\<lparr>points := points p + n, totalEarned := totalEarned p + n, up_updatedAt := now\<rparr>"
  show ?thesis
  proof (cases "db_update up_id (up_id p) ?f (user_points s1)")
    case None
    then show ?thesis using g nn assms(1) by (simp add: addPoints_def)
  next
    case (Some a)
    obtain upd tbl where a: "a = (upd, tbl)" by (cases a)
    have "list_all (\<lambda>p. 0 \<le> points p) tbl"
      using db_update_list_all[OF Some[unfolded a], of "\<lambda>p. 0 \<le> points p"] nn assms p0
      by (simp add: points_nonneg_def)
    then have nn2: "points_nonneg (s1\<lparr>user_points := tbl\<rparr>)" by (simp add: points_nonneg_def)
    obtain t s2 where c: "createPointsTransaction u n earn r m now (s1\<lparr>user_points := tbl\<rparr>) = Return t s2"
      using createPointsTransaction_Return by blast
    have "user_points s2 = tbl" using createPointsTransaction_user_points[OF c] by simp
    then have "points_nonneg s2" using nn2 by (simp add: points_nonneg_def)
    then show ?thesis using g Some a c by (simp add: addPoints_def)
  qed
qed

lemma subtractPoints_nonneg:
  assumes "points_nonneg s"
  shows "points_nonneg (store_of (subtractPoints u n r m now s))"
proof -
  obtain p s1 where g: "getUserPoints u now s = Return p s1" and mem: "p \<in> set (user_points s1)"
    and nn: "points_nonneg s \<longrightarrow> points_nonneg s1"
    by (rule getUserPoints_cases)
  let ?f = "\<lambda>r. r\<lparr>points := points p - n, totalSpent := totalSpent p + n, up_updatedAt := now\<rparr>"
  show ?thesis
  proof (cases "points p < n")
    case True
    then show ?thesis using g nn assms by (simp add: subtractPoints_def)
  next
    case enough: False
    show ?thesis
    proof (cases "db_update up_id (up_id p) ?f (user_points s1)")
      case None
      then show ?thesis using g nn assms enough by (simp add: subtractPoints_def)
    next
      case (Some a)
      obtain upd tbl where a: "a = (upd, tbl)" by (cases a)
      have "list_all (\<lambda>p. 0 \<le> points p) tbl"
        using db_update_list_all[OF Some[unfolded a], of "\<lambda>p. 0 \<le> points p"] nn assms enough
        by (simp add: points_nonneg_def)
      then have nn2: "points_nonneg (s1\<lparr>user_points := tbl\<rparr>)" by (simp add: points_nonneg_def)
      obtain t s2 where c: "createPointsTransaction u n spend r m now (s1\<lparr>user_points := tbl\<rparr>) = Return t s2"
        using createPointsTransaction_Return by blast
      have "user_points s2 = tbl" using createPointsTransaction_user_points[OF c] by simp
      then have "points_nonneg s2" using nn2 by (simp add: points_nonneg_def)
      then show ?thesis using g Some a c enough by (simp add: subtractPoints_def)
    qed
  qed
qed

lemma subtractPoints_insufficient:
  assumes "balance u s < n"
  shows "\<exists>s'. subtractPoints u n r m now s = Thrown InsufficientPoints s'
            \<and> balance u s' = balance u s
            \<and> points_transactions s' = points_transactions s"
proof -
  obtain p s1 where g: "getUserPoints u now s = Return p s1"
    and "points_transactions s1 = points_transactions s"
    and "balance u s1 = balance u s" and "points p = balance u s"
    by (rule getUserPoints_cases)
  then show ?thesis using assms by (simp add: subtractPoints_def)
qed

lemma run_calls_nonneg:
  "points_nonneg s \<Longrightarrow> list_all (\<lambda>c. 0 \<le> call_amount c) calls
     \<Longrightarrow> points_nonneg (run_calls calls s)"
proof (induction calls arbitrary: s)
  case Nil then show ?case by simp
next
  case (Cons c cs)
  have "points_nonneg (run_call c s)"
    using Cons.prems by (cases c) (simp_all add: addPoints_nonneg subtractPoints_nonneg)
  then show ?case using Cons by simp
qed

text \<open>
  C10. From any store whose points records are all non-negative (the empty store is one:
  a user's record is created with 0 points on first access), any sequence of
  \<open>addPoints\<close> and \<open>subtractPoints\<close> calls with non-negative amounts leaves
  every user's balance at 0 or more; and \<open>subtractPoints\<close> with an amount above the
  balance throws the insufficient-points error, with the balance and the log of points
  transactions as they were.
\<close>

theorem points_balance_never_negative:
  assumes "points_nonneg s" and "list_all (\<lambda>c. 0 \<le> call_amount c) calls"
  shows "0 \<le> balance u (run_calls calls s)
       \<and> (balance u (run_calls calls s) < n \<longrightarrow>
            (\<exists>s'. subtractPoints u n r m now (run_calls calls s) = Thrown InsufficientPoints s'
                \<and> balance u s' = balance u (run_calls calls s)
                \<and> points_transactions s' = points_transactions (run_calls calls s)))"
  using assms by (simp add: run_calls_nonneg balance_nonneg subtractPoints_insufficient)


lemmas ledger_defs = run_calls.simps run_call.simps store_of.simps empty_store_def
  addPoints_def subtractPoints_def getUserPoints_def createUserPoints_def
  createPointsTransaction_def db_find_def db_insert_def db_update_def balance_def Let_def

theorem points_balance_never_negative_witness:
  "points_nonneg empty_store
   \<and> list_all (\<lambda>c. 0 \<le> call_amount c)
        [AddPoints ''ana'' 5 ''bonus'' None 10, SubtractPoints ''ana'' 3 ''canje'' None 11]
   \<and> balance ''ana'' (run_calls
        [AddPoints ''ana'' 5 ''bonus'' None 10, SubtractPoints ''ana'' 3 ''canje'' None 11]
        empty_store) = 2
   \<and> (\<exists>s'. subtractPoints ''ana'' 7 ''canje'' None 12 (run_calls
        [AddPoints ''ana'' 5 ''bonus'' None 10, SubtractPoints ''ana'' 3 ''canje'' None 11]
        empty_store) = Thrown InsufficientPoints s'
         \<and> balance ''ana'' s' = 2
         \<and> length (points_transactions s') = 2)"
proof -
  let ?calls = "[AddPoints ''ana'' 5 ''bonus'' None 10, SubtractPoints ''ana'' 3 ''canje'' None 11]"
  have h1: "points_nonneg empty_store" by (simp add: points_nonneg_def empty_store_def)
  have h2: "list_all (\<lambda>c. 0 \<le> call_amount c) ?calls" by simp
  have b: "balance ''ana'' (run_calls ?calls empty_store) = 2"
    by (simp add: ledger_defs)
  have l: "length (points_transactions (run_calls ?calls empty_store)) = 2"
    by (simp add: ledger_defs)
  from points_balance_never_negative[OF h1 h2, of "''ana''" 7 "''canje''" None 12]
  show ?thesis using h1 h2 b l by auto
qed


section \<open>Properties of the evaluator\<close>

lemmas type_defs = SAVINGS_def SPENDING_LIMIT_def CATEGORY_BAN_def STREAK_def
  GOAL_CONTRIBUTION_def INCOME_PERCENTAGE_def

lemmas evaluator_defs = evaluate_def calculateProgress_def isChallengeCompleted_def
  isChallengeFailed_def calculateStreakDays_def sum_amounts_def or0_def Let_def

lemmas example_defs = base_challenge_def base_transaction_def no_progress_def no_rules_def
  day_ms_def

lemmas incremental_defs = updateChallengeProgressWithTransaction_def progress_switch_def
  db_update_def
  addPoints_def getUserPoints_def createUserPoints_def createPointsTransaction_def
  db_find_def db_insert_def or0_def Let_def

text \<open>
  C5. A SPENDING_LIMIT challenge restricted to the category food, limit 100, and one expense
  of 150 in the category taxi after the start: the batch evaluator counts the taxi expense
  (current amount 150) and fails the challenge before its end date, while the
  per-transaction path leaves the challenge untouched.
\<close>

theorem spending_limit_counts_other_categories:
  "evaluate
     (base_challenge\<lparr>c_type := SPENDING_LIMIT,
                      rules := no_rules\<lparr>targetAmount := Some 100, category := Some ''food''\<rparr>\<rparr>)
     [base_transaction\<lparr>t_amount := 150, t_category := ''taxi'', t_createdAt := 10\<rparr>] [] 20
   = (\<lparr>currentAmount = Some 150, currentStreak = Some 0, lastCheckedAt = Some 20,
       completedAt = None\<rparr>, FAIL)
   \<and> fst (updateChallengeProgressWithTransaction
     (base_challenge\<lparr>c_type := SPENDING_LIMIT,
                      rules := no_rules\<lparr>targetAmount := Some 100, category := Some ''food''\<rparr>\<rparr>)
     (base_transaction\<lparr>t_amount := 150, t_category := ''taxi'', t_createdAt := 10\<rparr>) 20
     (empty_store\<lparr>challenges :=
        [base_challenge\<lparr>c_type := SPENDING_LIMIT,
                      rules := no_rules\<lparr>targetAmount := Some 100, category := Some ''food''\<rparr>\<rparr>]\<rparr>))
     = None"
  by (simp add: evaluator_defs example_defs type_defs incremental_defs empty_store_def)

text \<open>
  C6. A STREAK challenge of 7 days on the category delivery, and a delivery expense on
  day 3: the batch evaluator resets the streak to 0 but stays at CONTINUE on day 3, while
  the per-transaction path marks the challenge FAILED.
\<close>

theorem streak_broken_continues:
  "evaluate
     (base_challenge\<lparr>c_type := STREAK,
                      rules := no_rules\<lparr>category := Some ''delivery'', streakDays := Some 7\<rparr>\<rparr>)
     [base_transaction\<lparr>t_amount := 30, t_category := ''delivery'', t_createdAt := 3 * day_ms\<rparr>]
     [] (3 * day_ms + 1000)
   = (\<lparr>currentAmount = Some 0, currentStreak = Some 0,
       lastCheckedAt = Some (3 * day_ms + 1000), completedAt = None\<rparr>, CONTINUE)
  \<and> map_option status (fst (updateChallengeProgressWithTransaction
     (base_challenge\<lparr>c_type := STREAK,
                      rules := no_rules\<lparr>category := Some ''delivery'', streakDays := Some 7\<rparr>\<rparr>)
     (base_transaction\<lparr>t_amount := 30, t_category := ''delivery'', t_createdAt := 3 * day_ms\<rparr>)
     (3 * day_ms + 1000)
     (empty_store\<lparr>challenges :=
        [base_challenge\<lparr>c_type := STREAK,
                      rules := no_rules\<lparr>category := Some ''delivery'', streakDays := Some 7\<rparr>\<rparr>]\<rparr>)))
     = Some FAILED"
  by (simp add: evaluator_defs example_defs type_defs incremental_defs empty_store_def)






section \<open>Properties of the generator\<close>

lemma normalize_all_null: "JsonNull \<in> set els \<Longrightarrow> normalize_all els = None"
proof (induction els)
  case Nil then show ?case by simp
next
  case (Cons e es)
  then show ?case by (cases e) (auto split: option.splits)
qed

lemma normalize_all_objects:
  "\<exists>ds. normalize_all (map JsonObject objs) = Some ds \<and> map d_type ds = map j_type objs
        \<and> map d_difficulty ds = map j_difficulty objs
        \<and> map d_frequency ds = map j_frequency objs"
  by (induction objs) auto

lemma parse_unparseable:
  "unparseable P reply \<Longrightarrow> parseAIChallenges P now reply = generateFallbackChallenges now"
  by (auto simp: unparseable_def parseAIChallenges_def list_ex_iff normalize_all_null
           split: option.splits)

lemma fallback_types:
  "map d_type (generateFallbackChallenges now) = [SPENDING_LIMIT, SAVINGS, CATEGORY_BAN]"
  by (simp add: generateFallbackChallenges_def Let_def)

lemma drafted_types: "map c_type (drafted n u p now ds) = map d_type ds"
  by (induction ds arbitrary: n) (simp_all add: new_challenge_def)

lemma drafted_active:
  "list_all (\<lambda>c. status c = ACTIVE \<and> c_userId c = u) (drafted n u p now ds)"
  by (induction ds arbitrary: n) (simp_all add: new_challenge_def)

lemma drafted_length: "length (drafted n u p now ds) = length ds"
  by (induction ds arbitrary: n) simp_all

lemma drafted_ids: "map c_id (drafted n u p now ds) = [n ..< n + length ds]"
  by (induction ds arbitrary: n) (simp_all add: new_challenge_def upt_rec)

lemma insert_drafts_returns:
  "\<exists>s'. insert_drafts ds u p now acc s = Return (acc @ drafted (next_uuid s) u p now ds) s'
        \<and> next_uuid s' = next_uuid s + length ds
        \<and> transactions s' = transactions s \<and> savings_goals s' = savings_goals s
        \<and> user_points s' = user_points s \<and> points_transactions s' = points_transactions s"
proof (induction ds arbitrary: acc s)
  case Nil then show ?case by simp
next
  case (Cons d ds)
  let ?c = "new_challenge (next_uuid s) u d p now"
  let ?s1 = "s\<lparr>challenges := db_insert c_id ?c (challenges s), next_uuid := Suc (next_uuid s)\<rparr>"
  from Cons.IH[of "acc @ [?c]" ?s1] show ?case by (auto simp: Let_def)
qed

lemma db_insert_fresh:
  "list_all (\<lambda>x. key x < key r) tbl \<Longrightarrow> db_insert key r tbl = tbl @ [r]"
proof -
  assume a: "list_all (\<lambda>x. key x < key r) tbl"
  have "find (\<lambda>x. key x = key r) tbl = None"
    using a by (auto simp: find_None_iff list_all_iff)
  then show ?thesis by (simp add: db_insert_def)
qed

lemma insert_drafts_challenges:
  "list_all (\<lambda>c. c_id c < next_uuid s) (challenges s) \<Longrightarrow>
   challenges (store_of (insert_drafts ds u p now acc s))
     = challenges s @ drafted (next_uuid s) u p now ds"
proof (induction ds arbitrary: acc s)
  case Nil then show ?case by simp
next
  case (Cons d ds)
  let ?c = "new_challenge (next_uuid s) u d p now"
  let ?s1 = "s\<lparr>challenges := db_insert c_id ?c (challenges s), next_uuid := Suc (next_uuid s)\<rparr>"
  have cid: "c_id ?c = next_uuid s" by (simp add: new_challenge_def)
  have ins: "db_insert c_id ?c (challenges s) = challenges s @ [?c]"
    using Cons.prems by (intro db_insert_fresh) (simp add: cid)
  have "list_all (\<lambda>c. c_id c < next_uuid ?s1) (challenges ?s1)"
    using Cons.prems by (auto simp: ins cid list_all_iff)
  from Cons.IH[OF this, of "acc @ [?c]"] show ?case by (simp add: Let_def ins)
qed

text \<open>
  When the reply holds no bracketed text, or \<open>JSON.parse\<close> throws on it, or an
  element of the array is \<open>null\<close>, the parser returns the fallback set: three drafts
  of the types SPENDING_LIMIT, SAVINGS and CATEGORY_BAN; generation then returns without
  error and inserts three ACTIVE challenges of these types.
\<close>

lemma fallback_on_unparseable_reply:
  assumes u: "unparseable JSON_parse reply"
  shows "parseAIChallenges JSON_parse now reply = generateFallbackChallenges now"
    and "map d_type (parseAIChallenges JSON_parse now reply)
            = [SPENDING_LIMIT, SAVINGS, CATEGORY_BAN]"
    and "ai (buildAIPrompt input now s) = Some reply \<Longrightarrow>
           \<exists>cs s'. generateChallenges ai JSON_parse input now s = Return cs s'
               \<and> map c_type cs = [SPENDING_LIMIT, SAVINGS, CATEGORY_BAN]
               \<and> list_all (\<lambda>c. status c = ACTIVE \<and> c_userId c = gi_userId input) cs"
proof -
  show fb: "parseAIChallenges JSON_parse now reply = generateFallbackChallenges now"
    using u by (rule parse_unparseable)
  show "map d_type (parseAIChallenges JSON_parse now reply)
            = [SPENDING_LIMIT, SAVINGS, CATEGORY_BAN]"
    by (simp only: fb fallback_types)
  assume a: "ai (buildAIPrompt input now s) = Some reply"
  let ?p = "buildAIPrompt input now s"
  let ?ds = "parseAIChallenges JSON_parse now reply"
  obtain s' where r: "insert_drafts ?ds (gi_userId input) ?p now [] s
      = Return ([] @ drafted (next_uuid s) (gi_userId input) ?p now ?ds) s'"
    using insert_drafts_returns by blast
  have g: "generateChallenges ai JSON_parse input now s
             = Return (drafted (next_uuid s) (gi_userId input) ?p now ?ds) s'"
    using a r by (simp add: generateChallenges_def Let_def)
  have ty: "map c_type (drafted (next_uuid s) (gi_userId input) ?p now ?ds)
          = [SPENDING_LIMIT, SAVINGS, CATEGORY_BAN]"
    by (simp only: drafted_types fb fallback_types)
  have act: "list_all (\<lambda>c. status c = ACTIVE \<and> c_userId c = gi_userId input)
               (drafted (next_uuid s) (gi_userId input) ?p now ?ds)"
    by (rule drafted_active)
  show "\<exists>cs s'. generateChallenges ai JSON_parse input now s = Return cs s'
               \<and> map c_type cs = [SPENDING_LIMIT, SAVINGS, CATEGORY_BAN]
               \<and> list_all (\<lambda>c. status c = ACTIVE \<and> c_userId c = gi_userId input) cs"
    using g ty act by (intro exI conjI)
qed

lemma match_bogus_reply: "match_array bogus_reply = Some bogus_array"
  by (simp add: match_array_def bogus_reply_def bogus_array_def)

lemma parse_bogus_reply:
  "map d_type (parseAIChallenges bogus_parser 0 bogus_reply) = [''bogus'']"
  by (simp add: parseAIChallenges_def match_bogus_reply bogus_parser_def bogus_object_def)

text \<open>
  C8: the code departs from the claim on a reply with an invalid enum value. The reply
  \<open>bogus_reply\<close> holds an array of one object whose type is the string
  \<open>bogus\<close>, which is none of the challenge types. Under the comment
  \<open>Validar y normalizar\<close> the parser only casts the fields, so it does not fall
  back: it returns one draft of type \<open>bogus\<close>, and generation stores it as an
  ACTIVE challenge of that type, where the claim has the three fallback drafts.
\<close>

theorem invalid_enum_reply_is_accepted:
  "''bogus'' \<notin> {SAVINGS, SPENDING_LIMIT, CATEGORY_BAN, STREAK, GOAL_CONTRIBUTION,
                     INCOME_PERCENTAGE}
   \<and> map d_type (parseAIChallenges bogus_parser 0 bogus_reply) = [''bogus'']
   \<and> map d_type (generateFallbackChallenges 0) = [SPENDING_LIMIT, SAVINGS, CATEGORY_BAN]
   \<and> map (\<lambda>c. (c_id c, c_type c, status c))
         (challenges (store_of (generateChallenges (\<lambda>prompt. Some bogus_reply) bogus_parser
                                  (empty_input ''ana'') 0 empty_store)))
       = [(0, ''bogus'', ACTIVE)]"
proof -
  have n: "''bogus'' \<notin> {SAVINGS, SPENDING_LIMIT, CATEGORY_BAN, STREAK, GOAL_CONTRIBUTION,
                     INCOME_PERCENTAGE}"
    by (simp add: type_defs)
  have g: "map (\<lambda>c. (c_id c, c_type c, status c))
         (challenges (store_of (generateChallenges (\<lambda>prompt. Some bogus_reply) bogus_parser
                                  (empty_input ''ana'') 0 empty_store)))
       = [(0, ''bogus'', ACTIVE)]"
    by code_simp
  from n parse_bogus_reply fallback_types g show ?thesis by (intro conjI)
qed

section \<open>Effect of the passes on the store\<close>

subsection \<open>Tables\<close>

lemma find_distinct_key:
  "distinct (map key tbl) \<Longrightarrow> x \<in> set tbl \<Longrightarrow> find (\<lambda>y. key y = key x) tbl = Some x"
proof (induction tbl)
  case Nil then show ?case by simp
next
  case (Cons a tbl)
  then show ?case by (cases "a = x") (auto simp: image_iff)
qed

lemma find_absent_key:
  "i \<notin> key ` set tbl \<Longrightarrow> find (\<lambda>y. key y = i) tbl = None"
  by (auto simp: find_None_iff)

lemma map_replace_self:
  "distinct (map key tbl) \<Longrightarrow> c \<in> set tbl \<Longrightarrow> map (\<lambda>y. if key y = key c then c else y) tbl = tbl"
proof -
  assume d: "distinct (map key tbl)" and c: "c \<in> set tbl"
  have "(if key y = key c then c else y) = y" if "y \<in> set tbl" for y
    using that d c by (auto simp: distinct_map dest: inj_onD)
  then show ?thesis by (simp add: map_idI)
qed

lemma apply_local_Nil: "apply_local f [] tbl = tbl"
  by (simp add: apply_local_def)

lemma apply_local_Cons:
  assumes "c_id (f c) = c_id c" and "c_id c \<notin> c_id ` set rest"
  shows "apply_local f rest (map (\<lambda>y. if c_id y = c_id c then f c else y) tbl)
           = apply_local f (c # rest) tbl"
proof -
  have none: "find (\<lambda>x. c_id x = c_id c) rest = None"
    using assms(2) by (rule find_absent_key)
  show ?thesis
    unfolding apply_local_def map_map
    by (rule map_cong) (auto simp: assms(1) none)
qed

lemma apply_local_ids:
  assumes "\<And>c. c_id (f c) = c_id c"
  shows "map c_id (apply_local f cs tbl) = map c_id tbl"
proof -
  have "c_id (case find (\<lambda>c. c_id c = c_id x) cs of None \<Rightarrow> x | Some c \<Rightarrow> f c) = c_id x" for x
    by (auto simp: assms split: option.splits dest: find_Some_iff[THEN iffD1])
  then show ?thesis by (simp add: apply_local_def)
qed

lemma find_in_filter:
  assumes "distinct (map key tbl)" "x \<in> set tbl"
  shows "find (\<lambda>c. key c = key x) (filter P tbl) = (if P x then Some x else None)"
proof (cases "P x")
  case True
  have "distinct (map key (filter P tbl))" using assms(1) by (rule distinct_map_filter)
  moreover have "x \<in> set (filter P tbl)" using True assms(2) by simp
  ultimately show ?thesis using True by (simp add: find_distinct_key)
next
  case False
  have "c \<in> set (filter P tbl) \<Longrightarrow> key c \<noteq> key x" for c
    using assms False by (auto simp: distinct_map dest: inj_onD)
  then show ?thesis using False by (auto simp: find_None_iff)
qed

lemma apply_local_filter:
  assumes "distinct (map c_id tbl)"
  shows "apply_local f (filter P tbl) tbl = map (\<lambda>x. if P x then f x else x) tbl"
  unfolding apply_local_def
  by (rule map_cong) (simp_all add: find_in_filter[OF assms])

lemma map_keeps_other:
  "r \<in> set tbl \<Longrightarrow> key r \<noteq> i \<Longrightarrow> r \<in> set (map (\<lambda>y. if key y = i then v else y) tbl)"
  by (auto simp: image_iff)

lemma map_replace_ids:
  "key v = i \<Longrightarrow> map key (map (\<lambda>y. if key y = i then v else y) tbl) = map key tbl"
  by simp

subsection \<open>Single writes\<close>

lemma merge_dto_id [simp]: "c_id (merge_dto d data now) = c_id d"
  by (simp add: merge_dto_def)

lemma expire_id [simp]: "c_id (expire now d) = c_id d"
  by (simp add: expire_def)

lemma batch_record_id [simp]: "c_id (batch_record ts gs now d) = c_id d"
  by (simp add: batch_record_def Let_def)

lemma incremental_record_id [simp]: "c_id (incremental_record t now d) = c_id d"
  by (simp add: incremental_record_def Let_def split: prod.splits)

lemma updateChallenge_effect:
  assumes "find (\<lambda>x. c_id x = i) (challenges s) = Some d"
  shows "updateChallenge i data now s
           = Return (merge_dto d data now)
               (s\<lparr>challenges := map (\<lambda>x. if c_id x = i then merge_dto d data now else x)
                                   (challenges s)\<rparr>)"
  using assms
  by (simp add: updateChallenge_def getChallengeById_def db_findOne_def db_update_def Let_def)

lemma wf_ledger_challenges [simp]: "wf_ledger (s\<lparr>challenges := tbl\<rparr>) = wf_ledger s"
  by (simp add: wf_ledger_def)

lemma db_update_present:
  "find (\<lambda>x. key x = i) tbl = Some d \<Longrightarrow>
   db_update key i f tbl = Some (f d, map (\<lambda>x. if key x = i then f d else x) tbl)"
  by (simp add: db_update_def)

lemma addPoints_effect:
  assumes "wf_ledger s"
  shows "\<exists>p s' t. addPoints u n r m now s = Return p s'
           \<and> challenges s' = challenges s \<and> transactions s' = transactions s
           \<and> savings_goals s' = savings_goals s
           \<and> wf_ledger s' \<and> next_uuid s \<le> next_uuid s'
           \<and> points_transactions s' = points_transactions s @ [t]
           \<and> pt_type t = earn \<and> pt_challengeId t = m"
proof -
  have "\<exists>p s1. getUserPoints u now s = Return p s1 \<and> p \<in> set (user_points s1)
           \<and> challenges s1 = challenges s \<and> transactions s1 = transactions s
           \<and> savings_goals s1 = savings_goals s
           \<and> points_transactions s1 = points_transactions s
           \<and> wf_ledger s1 \<and> next_uuid s \<le> next_uuid s1"
  proof (cases "db_find (\<lambda>p. up_userId p = u) (user_points s)")
    case Nil
    let ?p = "\<lparr>up_id = next_uuid s, up_userId = u, points = 0, totalEarned = 0,
               totalSpent = 0, up_createdAt = now, up_updatedAt = now\<rparr>"
    have ins: "db_insert up_id ?p (user_points s) = user_points s @ [?p]"
      using assms by (intro db_insert_fresh) (simp add: wf_ledger_def)
    show ?thesis
      using Nil assms
      by (auto simp: getUserPoints_def createUserPoints_def Let_def ins wf_ledger_def
                     list_all_iff)
  next
    case (Cons p ps)
    then have "p \<in> set (filter (\<lambda>p. up_userId p = u) (user_points s))"
      by (simp add: db_find_def)
    then show ?thesis using Cons assms by (simp add: getUserPoints_def)
  qed
  then obtain p s1 where g: "getUserPoints u now s = Return p s1"
    and mem: "p \<in> set (user_points s1)"
    and fr: "challenges s1 = challenges s" "transactions s1 = transactions s"
      "savings_goals s1 = savings_goals s" "points_transactions s1 = points_transactions s"
    and wf1: "wf_ledger s1" and mono: "next_uuid s \<le> next_uuid s1"
    by blast
  let ?f = "\<lambda>r. r\<lparr>points := points p + n, totalEarned := totalEarned p + n, up_updatedAt := now\<rparr>"
  obtain d where d: "find (\<lambda>x. up_id x = up_id p) (user_points s1) = Some d"
    using mem by (cases "find (\<lambda>x. up_id x = up_id p) (user_points s1)")
                 (auto simp: find_None_iff)
  let ?tbl = "map (\<lambda>x. if up_id x = up_id p then ?f d else x) (user_points s1)"
  have upd: "db_update up_id (up_id p) ?f (user_points s1) = Some (?f d, ?tbl)"
    using d by (rule db_update_present)
  have d_id: "up_id d = up_id p" using d by (auto simp: find_Some_iff)
  have tbl_ok: "list_all (\<lambda>x. up_id x < next_uuid s1) ?tbl"
    using wf1 mem d_id by (auto simp: wf_ledger_def list_all_iff)
  let ?t = "\<lparr>pt_id = next_uuid s1, pt_userId = u, pt_points = n, pt_type = earn,
             pt_reason = r, pt_challengeId = m, pt_createdAt = now\<rparr>"
  have ins: "db_insert pt_id ?t (points_transactions s1) = points_transactions s1 @ [?t]"
    using wf1 by (intro db_insert_fresh) (simp add: wf_ledger_def)
  let ?s2 = "s1\<lparr>user_points := ?tbl, points_transactions := points_transactions s1 @ [?t],
                 next_uuid := Suc (next_uuid s1)\<rparr>"
  have a: "addPoints u n r m now s = Return (?f d) ?s2"
    using g upd by (simp add: addPoints_def createPointsTransaction_def Let_def ins)
  have wf2: "wf_ledger ?s2"
    using tbl_ok wf1 by (auto simp: wf_ledger_def list_all_iff less_Suc_eq)
  show ?thesis
    using a wf2 fr mono by (intro exI[of _ "?f d"] exI[of _ ?s2] exI[of _ ?t]) simp
qed


subsection \<open>getActiveChallenges\<close>

lemma expire_loop_effect:
  assumes "distinct (map c_id (challenges s))" and "distinct (map c_id cs)"
    and "set cs \<subseteq> set (challenges s)"
  shows "expire_loop cs now s
           = Return () (s\<lparr>challenges := apply_local (expire now) cs (challenges s)\<rparr>)"
  using assms
proof (induction cs arbitrary: s)
  case Nil
  then show ?case by (simp add: apply_local_Nil)
next
  case (Cons c rest)
  let ?tbl = "challenges s"
  let ?tbl1 = "map (\<lambda>y. if c_id y = c_id c then expire now c else y) ?tbl"
  let ?s1 = "s\<lparr>challenges := ?tbl1\<rparr>"
  have c_in: "c \<in> set ?tbl" using Cons.prems(3) by simp
  have fnd: "find (\<lambda>x. c_id x = c_id c) ?tbl = Some c"
    using Cons.prems(1) c_in by (rule find_distinct_key)
  have notin: "c_id c \<notin> c_id ` set rest" using Cons.prems(2) by simp
  have step: "(if endDate c < now then
                 (case updateChallenge (c_id c) \<lparr>u_status = Some EXPIRED, u_progress = None\<rparr> now s of
                    Thrown e s1 \<Rightarrow> Thrown e s1
                  | Return _ s1 \<Rightarrow> expire_loop rest now s1)
               else expire_loop rest now s) = expire_loop rest now ?s1"
  proof (cases "endDate c < now")
    case True
    then have e: "merge_dto c \<lparr>u_status = Some EXPIRED, u_progress = None\<rparr> now = expire now c"
      by (simp add: expire_def)
    show ?thesis using True
      unfolding updateChallenge_effect[OF fnd] e by simp
  next
    case False
    then have same: "expire now c = c" by (simp add: expire_def)
    have "?tbl1 = ?tbl"
      unfolding same by (rule map_replace_self[OF Cons.prems(1) c_in])
    then show ?thesis using False by simp
  qed
  have d1: "distinct (map c_id (challenges ?s1))"
    using Cons.prems(1) by (simp add: o_def if_distrib[of c_id] cong: if_cong)
  have d2: "distinct (map c_id rest)" using Cons.prems(2) by simp
  have sub: "set rest \<subseteq> set (challenges ?s1)"
  proof
    fix r assume r: "r \<in> set rest"
    then have "r \<in> set ?tbl" using Cons.prems(3) by auto
    moreover have "c_id r \<noteq> c_id c" using r notin by (metis image_eqI)
    ultimately show "r \<in> set (challenges ?s1)" by (simp add: map_keeps_other)
  qed
  have "expire_loop (c # rest) now s = expire_loop rest now ?s1"
    using step by simp
  also have "\<dots> = Return () (?s1\<lparr>challenges := apply_local (expire now) rest (challenges ?s1)\<rparr>)"
    by (rule Cons.IH[OF d1 d2 sub])
  also have "apply_local (expire now) rest (challenges ?s1)
               = apply_local (expire now) (c # rest) ?tbl"
    using apply_local_Cons[of "expire now" c rest ?tbl] notin by simp
  finally show ?case by simp
qed

text \<open>
  \<open>getActiveChallenges\<close> returns every active record of the user as fetched, and
  stores the expired copy of those past their end date.
\<close>

lemma getActiveChallenges_effect:
  assumes "distinct (map c_id (challenges s))"
  shows "getActiveChallenges u now s
           = Return (filter (\<lambda>c. c_userId c = u \<and> status c = ACTIVE) (challenges s))
               (s\<lparr>challenges := map (\<lambda>d. if c_userId d = u \<and> status d = ACTIVE
                                          then expire now d else d) (challenges s)\<rparr>)"
proof -
  let ?P = "\<lambda>c. c_userId c = u \<and> status c = ACTIVE"
  let ?found = "filter ?P (challenges s)"
  have "expire_loop ?found now s
          = Return () (s\<lparr>challenges := apply_local (expire now) ?found (challenges s)\<rparr>)"
    using assms by (intro expire_loop_effect) (auto simp: distinct_map_filter)
  moreover have "filter (\<lambda>c. status c = ACTIVE) ?found = ?found"
    by (auto intro: filter_True)
  ultimately show ?thesis
    by (simp add: getActiveChallenges_def db_find_def Let_def apply_local_filter[OF assms])
qed


subsection \<open>The batch pass\<close>

lemma batch_step:
  assumes fnd: "find (\<lambda>x. c_id x = c_id c) (challenges s) = Some (expire now c)"
    and wf: "wf_ledger s"
  shows "\<exists>r s1 new.
      (if isChallengeCompleted c (calculateProgress c ts gs now) now then
         completeChallenge (c_id c) (calculateProgress c ts gs now) now s
       else if isChallengeFailed c (calculateProgress c ts gs now) now then
         failChallenge (c_id c) (calculateProgress c ts gs now) now s
       else updateChallenge (c_id c)
              \<lparr>u_status = None, u_progress = Some (calculateProgress c ts gs now)\<rparr> now s)
        = Return r s1
      \<and> challenges s1 = map (\<lambda>y. if c_id y = c_id c then batch_record ts gs now c else y)
                            (challenges s)
      \<and> transactions s1 = transactions s \<and> savings_goals s1 = savings_goals s
      \<and> wf_ledger s1 \<and> next_uuid s \<le> next_uuid s1
      \<and> points_transactions s1 = points_transactions s @ new
      \<and> list_all (\<lambda>t. pt_type t = earn) new
      \<and> map pt_challengeId new
           = (if isChallengeCompleted c (calculateProgress c ts gs now) now
              then [Some (c_id c)] else [])"
proof -
  let ?p = "calculateProgress c ts gs now"
  let ?x = "expire now c"
  show ?thesis
  proof (cases "isChallengeCompleted c ?p now")
    case True
    let ?data = "\<lparr>u_status = Some COMPLETED, u_progress = Some (?p\<lparr>completedAt := Some now\<rparr>)\<rparr>"
    let ?s1 = "s\<lparr>challenges := map (\<lambda>y. if c_id y = c_id c then merge_dto ?x ?data now else y)
                                    (challenges s)\<rparr>"
    have rec: "batch_record ts gs now c = merge_dto ?x ?data now"
      using True by (simp add: batch_record_def Let_def)
    have "wf_ledger ?s1" using wf by simp
    from addPoints_effect[OF this, of "c_userId ?x" "rewardPoints ?x"
           "''Desafio completado: '' @ title ?x" "Some (c_id ?x)" now]
    obtain q s2 t where a: "addPoints (c_userId ?x) (rewardPoints ?x)
           (''Desafio completado: '' @ title ?x) (Some (c_id ?x)) now ?s1 = Return q s2"
      and fr: "challenges s2 = challenges ?s1" "transactions s2 = transactions ?s1"
        "savings_goals s2 = savings_goals ?s1" "wf_ledger s2" "next_uuid ?s1 \<le> next_uuid s2"
        "points_transactions s2 = points_transactions ?s1 @ [t]" "pt_type t = earn"
        "pt_challengeId t = Some (c_id ?x)"
      by blast
    have "completeChallenge (c_id c) ?p now s = Return (merge_dto ?x ?data now) s2"
      using fnd a
      by (simp add: completeChallenge_def getChallengeById_def db_findOne_def Let_def
                    updateChallenge_effect[OF fnd])
    then show ?thesis
      using True fr unfolding rec
      by (intro exI[of _ "merge_dto ?x ?data now"] exI[of _ s2] exI[of _ "[t]"]) simp
  next
    case notdone: False
    show ?thesis
    proof (cases "isChallengeFailed c ?p now")
      case True
      let ?data = "\<lparr>u_status = Some FAILED, u_progress = Some ?p\<rparr>"
      have rec: "batch_record ts gs now c = merge_dto ?x ?data now"
        using True notdone by (simp add: batch_record_def Let_def)
      let ?s1 = "s\<lparr>challenges := map (\<lambda>y. if c_id y = c_id c then merge_dto ?x ?data now else y)
                                    (challenges s)\<rparr>"
      show ?thesis
        using True notdone wf unfolding rec
        by (intro exI[of _ "merge_dto ?x ?data now"] exI[of _ ?s1] exI[of _ "[]"])
           (simp add: failChallenge_def updateChallenge_effect[OF fnd])
    next
      case False
      let ?data = "\<lparr>u_status = None, u_progress = Some ?p\<rparr>"
      have rec: "batch_record ts gs now c = merge_dto ?x ?data now"
        using False notdone by (simp add: batch_record_def Let_def)
      let ?s1 = "s\<lparr>challenges := map (\<lambda>y. if c_id y = c_id c then merge_dto ?x ?data now else y)
                                    (challenges s)\<rparr>"
      show ?thesis
        using False notdone wf unfolding rec
        by (intro exI[of _ "merge_dto ?x ?data now"] exI[of _ ?s1] exI[of _ "[]"])
           (simp add: updateChallenge_effect[OF fnd])
    qed
  qed
qed

lemma checkProgress_loop_effect:
  assumes "distinct (map c_id (challenges s))" and "distinct (map c_id cs)"
    and "\<forall>c\<in>set cs. expire now c \<in> set (challenges s)"
    and "wf_ledger s"
  shows "\<exists>upd s' new.
      checkProgress_loop cs ts gs now acc s = Return upd s'
      \<and> challenges s' = apply_local (batch_record ts gs now) cs (challenges s)
      \<and> transactions s' = transactions s \<and> savings_goals s' = savings_goals s
      \<and> wf_ledger s' \<and> next_uuid s \<le> next_uuid s'
      \<and> points_transactions s' = points_transactions s @ new
      \<and> list_all (\<lambda>t. pt_type t = earn) new
      \<and> map pt_challengeId new
           = map (\<lambda>c. Some (c_id c))
               (filter (\<lambda>c. isChallengeCompleted c (calculateProgress c ts gs now) now) cs)"
  using assms
proof (induction cs arbitrary: s acc)
  case Nil
  then show ?case by (simp add: apply_local_Nil)
next
  case (Cons c rest)
  let ?tbl = "challenges s"
  have x_in: "expire now c \<in> set ?tbl" using Cons.prems(3) by simp
  have fnd: "find (\<lambda>x. c_id x = c_id c) ?tbl = Some (expire now c)"
    using find_distinct_key[OF Cons.prems(1) x_in] by simp
  have notin: "c_id c \<notin> c_id ` set rest" using Cons.prems(2) by simp
  from batch_step[OF fnd Cons.prems(4), of ts gs]
  obtain r s1 new1 where
    step: "(if isChallengeCompleted c (calculateProgress c ts gs now) now then
         completeChallenge (c_id c) (calculateProgress c ts gs now) now s
       else if isChallengeFailed c (calculateProgress c ts gs now) now then
         failChallenge (c_id c) (calculateProgress c ts gs now) now s
       else updateChallenge (c_id c)
              \<lparr>u_status = None, u_progress = Some (calculateProgress c ts gs now)\<rparr> now s)
        = Return r s1"
    and tbl1: "challenges s1 = map (\<lambda>y. if c_id y = c_id c then batch_record ts gs now c else y) ?tbl"
    and fr1: "transactions s1 = transactions s" "savings_goals s1 = savings_goals s"
      "wf_ledger s1" "next_uuid s \<le> next_uuid s1"
      "points_transactions s1 = points_transactions s @ new1"
      "list_all (\<lambda>t. pt_type t = earn) new1"
      "map pt_challengeId new1
           = (if isChallengeCompleted c (calculateProgress c ts gs now) now
              then [Some (c_id c)] else [])"
    by blast
  have d1: "distinct (map c_id (challenges s1))"
    using Cons.prems(1) unfolding tbl1 by (simp add: o_def if_distrib[of c_id] cong: if_cong)
  have d2: "distinct (map c_id rest)" using Cons.prems(2) by simp
  have sub: "\<forall>r\<in>set rest. expire now r \<in> set (challenges s1)"
  proof
    fix r assume r: "r \<in> set rest"
    then have "expire now r \<in> set ?tbl" using Cons.prems(3) by simp
    moreover have "c_id (expire now r) \<noteq> c_id c" using r notin by (metis expire_id image_eqI)
    ultimately show "expire now r \<in> set (challenges s1)"
      unfolding tbl1 by (rule map_keeps_other)
  qed
  from Cons.IH[OF d1 d2 sub fr1(3), of "acc @ [r]"]
  obtain upd s' new2 where
    loop: "checkProgress_loop rest ts gs now (acc @ [r]) s1 = Return upd s'"
    and tbl2: "challenges s' = apply_local (batch_record ts gs now) rest (challenges s1)"
    and fr2: "transactions s' = transactions s1" "savings_goals s' = savings_goals s1"
      "wf_ledger s'" "next_uuid s1 \<le> next_uuid s'"
      "points_transactions s' = points_transactions s1 @ new2"
      "list_all (\<lambda>t. pt_type t = earn) new2"
      "map pt_challengeId new2
           = map (\<lambda>c. Some (c_id c))
               (filter (\<lambda>c. isChallengeCompleted c (calculateProgress c ts gs now) now) rest)"
    by blast
  have run: "checkProgress_loop (c # rest) ts gs now acc s = Return upd s'"
    using step loop by (simp add: Let_def)
  have tbl: "challenges s' = apply_local (batch_record ts gs now) (c # rest) ?tbl"
    unfolding tbl2 tbl1
    using apply_local_Cons[of "batch_record ts gs now" c rest ?tbl] notin by simp
  show ?case
    using run tbl fr1 fr2
    by (intro exI[of _ upd] exI[of _ s'] exI[of _ "new1 @ new2"]) simp
qed


lemma apply_local_after_expire:
  assumes "distinct (map c_id tbl)" and "\<And>c. c_id (g c) = c_id c"
  shows "apply_local f (filter P tbl) (map (\<lambda>d. if P d then g d else d) tbl)
           = map (\<lambda>d. if P d then f d else d) tbl"
  unfolding apply_local_def map_map
proof (rule map_cong)
  fix x assume x: "x \<in> set tbl"
  have "c_id (if P x then g x else x) = c_id x" by (simp add: assms(2))
  then show "((\<lambda>x. case find (\<lambda>c. c_id c = c_id x) (filter P tbl) of
                    None \<Rightarrow> x | Some c \<Rightarrow> f c) \<circ> (\<lambda>d. if P d then g d else d)) x
             = (if P x then f x else x)"
    using find_in_filter[OF assms(1) x, of P] by simp
qed simp

lemma wf_store_after:
  assumes "wf_store s" and "map c_id (challenges s') = map c_id (challenges s)"
    and "wf_ledger s'" and "next_uuid s \<le> next_uuid s'"
  shows "wf_store s'"
proof -
  have "list_all (\<lambda>i. i < next_uuid s) (map c_id (challenges s))"
    using assms(1) by (simp add: wf_store_def list_all_iff)
  then have "list_all (\<lambda>i. i < next_uuid s') (map c_id (challenges s'))"
    using assms(2,4) by (auto simp: list_all_iff)
  then have "list_all (\<lambda>c. c_id c < next_uuid s') (challenges s')"
    by (simp add: list_all_iff)
  moreover have "distinct (map c_id (challenges s'))"
    using assms(1,2) by (simp add: wf_store_def)
  ultimately show ?thesis using assms(3) by (simp add: wf_store_def)
qed

lemma map_if_ids:
  "(\<And>d. c_id (f d) = c_id d) \<Longrightarrow> map c_id (map (\<lambda>d. if P d then f d else d) tbl) = map c_id tbl"
  by (induction tbl) auto

text \<open>
  The batch pass always returns; it rewrites exactly the user's active records, each by
  \<open>batch_record\<close>, and logs one reward for each it completes.
\<close>

lemma checkProgress_effect:
  assumes "wf_store s"
  shows "\<exists>upd s' new.
      checkProgress u now s = Return upd s'
      \<and> challenges s'
          = map (\<lambda>d. if c_userId d = u \<and> status d = ACTIVE
                      then batch_record (db_find (\<lambda>t. t_userId t = u) (transactions s))
                             (db_find (\<lambda>g. g_userId g = u) (savings_goals s)) now d
                      else d) (challenges s)
      \<and> transactions s' = transactions s \<and> savings_goals s' = savings_goals s
      \<and> wf_store s' \<and> next_uuid s \<le> next_uuid s'
      \<and> points_transactions s' = points_transactions s @ new
      \<and> list_all (\<lambda>t. pt_type t = earn) new
      \<and> map pt_challengeId new
           = map (\<lambda>c. Some (c_id c))
               (filter (\<lambda>c. isChallengeCompleted c
                          (calculateProgress c (db_find (\<lambda>t. t_userId t = u) (transactions s))
                             (db_find (\<lambda>g. g_userId g = u) (savings_goals s)) now) now)
                  (filter (\<lambda>c. c_userId c = u \<and> status c = ACTIVE) (challenges s)))"
proof -
  let ?P = "\<lambda>c. c_userId c = u \<and> status c = ACTIVE"
  let ?tbl = "challenges s"
  let ?ts = "db_find (\<lambda>t. t_userId t = u) (transactions s)"
  let ?gs = "db_find (\<lambda>g. g_userId g = u) (savings_goals s)"
  let ?cs = "filter ?P ?tbl"
  let ?s1 = "s\<lparr>challenges := map (\<lambda>d. if ?P d then expire now d else d) ?tbl\<rparr>"
  have dist: "distinct (map c_id ?tbl)" and wfl: "wf_ledger s"
    using assms by (simp_all add: wf_store_def)
  have ga: "getActiveChallenges u now s = Return ?cs ?s1"
    using dist by (rule getActiveChallenges_effect)
  have ids1: "map c_id (challenges ?s1) = map c_id ?tbl"
    by (simp add: map_if_ids del: map_map)
  have d1: "distinct (map c_id (challenges ?s1))"
    using dist by (simp only: ids1)
  have d2: "distinct (map c_id ?cs)" using dist by (rule distinct_map_filter)
  have sub: "\<forall>c\<in>set ?cs. expire now c \<in> set (challenges ?s1)" by auto
  have wf1: "wf_ledger ?s1" using wfl by simp
  from checkProgress_loop_effect[OF d1 d2 sub wf1, of ?ts ?gs "[]"]
  obtain upd s' new where
    loop: "checkProgress_loop ?cs ?ts ?gs now [] ?s1 = Return upd s'"
    and tbl: "challenges s' = apply_local (batch_record ?ts ?gs now) ?cs (challenges ?s1)"
    and fr: "transactions s' = transactions ?s1" "savings_goals s' = savings_goals ?s1"
      "wf_ledger s'" "next_uuid ?s1 \<le> next_uuid s'"
      "points_transactions s' = points_transactions ?s1 @ new"
      "list_all (\<lambda>t. pt_type t = earn) new"
      "map pt_challengeId new
           = map (\<lambda>c. Some (c_id c))
               (filter (\<lambda>c. isChallengeCompleted c (calculateProgress c ?ts ?gs now) now) ?cs)"
    by blast
  have run: "checkProgress u now s = Return upd s'"
    using ga loop by (simp add: checkProgress_def Let_def)
  have tbl': "challenges s' = map (\<lambda>d. if ?P d then batch_record ?ts ?gs now d else d) ?tbl"
    unfolding tbl using apply_local_after_expire[OF dist, of "expire now"] by simp
  have ids': "map c_id (challenges s') = map c_id ?tbl"
    unfolding tbl' by (simp add: map_if_ids del: map_map)
  have wf': "wf_store s'"
    using assms ids' fr by (intro wf_store_after[of s s']) simp_all
  show ?thesis
    using run tbl' wf' fr
    by (intro exI[of _ upd] exI[of _ s'] exI[of _ new]) simp
qed


subsection \<open>The incremental pass\<close>

lemma incremental_step:
  assumes fnd: "find (\<lambda>x. c_id x = c_id c) (challenges s) = Some (expire now c)"
    and dist: "distinct (map c_id (challenges s))"
    and wf: "wf_ledger s"
  shows "\<exists>r s1 new.
      updateChallengeProgressWithTransaction c t now s = (r, s1)
      \<and> challenges s1 = map (\<lambda>y. if c_id y = c_id c then incremental_record t now c else y)
                            (challenges s)
      \<and> transactions s1 = transactions s \<and> savings_goals s1 = savings_goals s
      \<and> wf_ledger s1 \<and> next_uuid s \<le> next_uuid s1
      \<and> points_transactions s1 = points_transactions s @ new
      \<and> list_all (\<lambda>t. pt_type t = earn) new
      \<and> map pt_challengeId new
           = (if incremental_completes t now c then [Some (c_id c)] else [])"
proof -
  obtain upd su sc where sw: "progress_switch c t now = (upd, su, sc)"
    by (cases "progress_switch c t now") auto
  let ?x = "expire now c"
  let ?upd2 = "if sc then upd\<lparr>status := COMPLETED\<rparr> else upd"
  let ?w = "?x\<lparr>status := status ?upd2, progress := progress ?upd2, updatedAt := now\<rparr>"
  have ic: "incremental_completes t now c = sc"
    by (simp add: incremental_completes_def sw)
  show ?thesis
  proof (cases sc)
    case True
    from addPoints_effect[OF wf, of "c_userId c" "rewardPoints c"
           "''Challenge completado: '' @ title c" "Some (c_id c)" now]
    obtain q s2 e where a: "addPoints (c_userId c) (rewardPoints c)
           (''Challenge completado: '' @ title c) (Some (c_id c)) now s = Return q s2"
      and fr: "challenges s2 = challenges s" "transactions s2 = transactions s"
        "savings_goals s2 = savings_goals s" "wf_ledger s2" "next_uuid s \<le> next_uuid s2"
        "points_transactions s2 = points_transactions s @ [e]" "pt_type e = earn"
        "pt_challengeId e = Some (c_id c)"
      by blast
    have fnd2: "find (\<lambda>x. c_id x = c_id c) (challenges s2) = Some ?x"
      using fnd fr(1) by simp
    have rec: "incremental_record t now c = ?w"
      using True by (simp add: incremental_record_def sw)
    let ?s3 = "s2\<lparr>challenges := map (\<lambda>y. if c_id y = c_id c then ?w else y) (challenges s2)\<rparr>"
    have "updateChallengeProgressWithTransaction c t now s = (Some ?upd2, ?s3)"
      using True a
      by (simp add: updateChallengeProgressWithTransaction_def sw db_update_present[OF fnd2] Let_def)
    then show ?thesis
      using fr True unfolding rec ic
      by (intro exI[of _ "Some ?upd2"] exI[of _ ?s3] exI[of _ "[e]"]) simp
  next
    case nosc: False
    show ?thesis
    proof (cases su)
      case True
      have rec: "incremental_record t now c = ?w"
        using True by (simp add: incremental_record_def sw)
      let ?s3 = "s\<lparr>challenges := map (\<lambda>y. if c_id y = c_id c then ?w else y) (challenges s)\<rparr>"
      have "updateChallengeProgressWithTransaction c t now s = (Some ?upd2, ?s3)"
        using True nosc
        by (simp add: updateChallengeProgressWithTransaction_def sw db_update_present[OF fnd] Let_def)
      then show ?thesis
        using wf nosc unfolding rec ic
        by (intro exI[of _ "Some ?upd2"] exI[of _ ?s3] exI[of _ "[]"]) simp
    next
      case False
      have rec: "incremental_record t now c = ?x"
        using False nosc by (simp add: incremental_record_def sw)
      have x_in: "?x \<in> set (challenges s)" using fnd by (auto simp: find_Some_iff)
      have same: "map (\<lambda>y. if c_id y = c_id c then ?x else y) (challenges s) = challenges s"
        using map_replace_self[OF dist x_in] by simp
      have "updateChallengeProgressWithTransaction c t now s = (None, s)"
        using False nosc by (simp add: updateChallengeProgressWithTransaction_def sw Let_def)
      then show ?thesis
        using wf nosc unfolding rec ic
        by (intro exI[of _ None] exI[of _ s] exI[of _ "[]"]) (simp add: same)
    qed
  qed
qed

lemma incremental_loop_effect:
  assumes "distinct (map c_id (challenges s))" and "distinct (map c_id cs)"
    and "\<forall>c\<in>set cs. expire now c \<in> set (challenges s)"
    and "wf_ledger s"
  shows "\<exists>upd s' new.
      incremental_loop cs t now acc s = (upd, s')
      \<and> challenges s' = apply_local (incremental_record t now) cs (challenges s)
      \<and> transactions s' = transactions s \<and> savings_goals s' = savings_goals s
      \<and> wf_ledger s' \<and> next_uuid s \<le> next_uuid s'
      \<and> points_transactions s' = points_transactions s @ new
      \<and> list_all (\<lambda>t. pt_type t = earn) new
      \<and> map pt_challengeId new
           = map (\<lambda>c. Some (c_id c)) (filter (incremental_completes t now) cs)"
  using assms
proof (induction cs arbitrary: s acc)
  case Nil
  then show ?case by (simp add: apply_local_Nil)
next
  case (Cons c rest)
  let ?tbl = "challenges s"
  have x_in: "expire now c \<in> set ?tbl" using Cons.prems(3) by simp
  have fnd: "find (\<lambda>x. c_id x = c_id c) ?tbl = Some (expire now c)"
    using find_distinct_key[OF Cons.prems(1) x_in] by simp
  have notin: "c_id c \<notin> c_id ` set rest" using Cons.prems(2) by simp
  from incremental_step[OF fnd Cons.prems(1) Cons.prems(4), of t]
  obtain r s1 new1 where
    step: "updateChallengeProgressWithTransaction c t now s = (r, s1)"
    and tbl1: "challenges s1 = map (\<lambda>y. if c_id y = c_id c then incremental_record t now c else y) ?tbl"
    and fr1: "transactions s1 = transactions s" "savings_goals s1 = savings_goals s"
      "wf_ledger s1" "next_uuid s \<le> next_uuid s1"
      "points_transactions s1 = points_transactions s @ new1"
      "list_all (\<lambda>t. pt_type t = earn) new1"
      "map pt_challengeId new1 = (if incremental_completes t now c then [Some (c_id c)] else [])"
    by blast
  have d1: "distinct (map c_id (challenges s1))"
    using Cons.prems(1) unfolding tbl1 by (simp add: o_def if_distrib[of c_id] cong: if_cong)
  have d2: "distinct (map c_id rest)" using Cons.prems(2) by simp
  have sub: "\<forall>r\<in>set rest. expire now r \<in> set (challenges s1)"
  proof
    fix r assume r: "r \<in> set rest"
    then have "expire now r \<in> set ?tbl" using Cons.prems(3) by simp
    moreover have "c_id (expire now r) \<noteq> c_id c" using r notin by (metis expire_id image_eqI)
    ultimately show "expire now r \<in> set (challenges s1)"
      unfolding tbl1 by (rule map_keeps_other)
  qed
  let ?acc1 = "case r of None \<Rightarrow> acc | Some u \<Rightarrow> acc @ [u]"
  from Cons.IH[OF d1 d2 sub fr1(3), of ?acc1]
  obtain upd s' new2 where
    loop: "incremental_loop rest t now ?acc1 s1 = (upd, s')"
    and tbl2: "challenges s' = apply_local (incremental_record t now) rest (challenges s1)"
    and fr2: "transactions s' = transactions s1" "savings_goals s' = savings_goals s1"
      "wf_ledger s'" "next_uuid s1 \<le> next_uuid s'"
      "points_transactions s' = points_transactions s1 @ new2"
      "list_all (\<lambda>t. pt_type t = earn) new2"
      "map pt_challengeId new2
           = map (\<lambda>c. Some (c_id c)) (filter (incremental_completes t now) rest)"
    by blast
  have run: "incremental_loop (c # rest) t now acc s = (upd, s')"
    using step loop by (cases r) simp_all
  have tbl: "challenges s' = apply_local (incremental_record t now) (c # rest) ?tbl"
    unfolding tbl2 tbl1
    using apply_local_Cons[of "incremental_record t now" c rest ?tbl] notin by simp
  show ?case
    using run tbl fr1 fr2
    by (intro exI[of _ upd] exI[of _ s'] exI[of _ "new1 @ new2"]) simp
qed


subsection \<open>Generation and top-up\<close>

lemma insert_drafts_effect:
  "list_all (\<lambda>c. c_id c < next_uuid s) (challenges s) \<Longrightarrow>
   insert_drafts ds u p now acc s
     = Return (acc @ drafted (next_uuid s) u p now ds)
         (s\<lparr>challenges := challenges s @ drafted (next_uuid s) u p now ds,
            next_uuid := next_uuid s + length ds\<rparr>)"
proof (induction ds arbitrary: acc s)
  case Nil then show ?case by simp
next
  case (Cons d ds)
  let ?c = "new_challenge (next_uuid s) u d p now"
  let ?s1 = "s\<lparr>challenges := db_insert c_id ?c (challenges s), next_uuid := Suc (next_uuid s)\<rparr>"
  have cid: "c_id ?c = next_uuid s" by (simp add: new_challenge_def)
  have ins: "db_insert c_id ?c (challenges s) = challenges s @ [?c]"
    using Cons.prems by (intro db_insert_fresh) (simp add: cid)
  have "list_all (\<lambda>c. c_id c < next_uuid ?s1) (challenges ?s1)"
    using Cons.prems by (auto simp: ins cid list_all_iff)
  from Cons.IH[OF this, of "acc @ [?c]"] show ?case by (simp add: Let_def ins)
qed

lemma wf_store_drafted:
  assumes "wf_store s"
  shows "wf_store (s\<lparr>challenges := challenges s @ drafted (next_uuid s) u p now ds,
                     next_uuid := next_uuid s + length ds\<rparr>)"
proof -
  have old: "\<forall>c\<in>set (challenges s). c_id c < next_uuid s"
    and dist: "distinct (map c_id (challenges s))" and wfl: "wf_ledger s"
    using assms by (simp_all add: wf_store_def list_all_iff)
  have new_ids: "c_id ` set (drafted (next_uuid s) u p now ds)
                   = {next_uuid s ..< next_uuid s + length ds}"
    using drafted_ids[of "next_uuid s" u p now ds]
    by (metis atLeastLessThan_upt list.set_map)
  have disj: "c_id ` set (challenges s) \<inter> c_id ` set (drafted (next_uuid s) u p now ds) = {}"
    unfolding new_ids using old by fastforce
  have "distinct (map c_id (challenges s @ drafted (next_uuid s) u p now ds))"
    using dist disj[unfolded new_ids] by (simp add: drafted_ids)
  moreover have "\<forall>c\<in>set (challenges s @ drafted (next_uuid s) u p now ds).
                   c_id c < next_uuid s + length ds"
    using old new_ids by fastforce
  moreover have "wf_ledger (s\<lparr>challenges := challenges s @ drafted (next_uuid s) u p now ds,
                     next_uuid := next_uuid s + length ds\<rparr>)"
    using wfl by (auto simp: wf_ledger_def list_all_iff)
  ultimately show ?thesis by (simp add: wf_store_def list_all_iff)
qed

lemma drafted_fresh:
  "list_all (\<lambda>c. status c = ACTIVE \<and> c_userId c = u \<and> n \<le> c_id c) (drafted n u p now ds)"
proof (induction ds arbitrary: n)
  case Nil then show ?case by simp
next
  case (Cons d ds)
  have "list_all (\<lambda>c. status c = ACTIVE \<and> c_userId c = u \<and> Suc n \<le> c_id c)
          (drafted (Suc n) u p now ds)"
    by (rule Cons.IH)
  then have "list_all (\<lambda>c. status c = ACTIVE \<and> c_userId c = u \<and> n \<le> c_id c)
          (drafted (Suc n) u p now ds)"
    by (auto simp: list_all_iff)
  then show ?case by (simp add: new_challenge_def)
qed

text \<open>
  The top-up only appends: new ACTIVE challenges of the user under fresh ids, or nothing.
\<close>

lemma top_up_effect:
  assumes "wf_store s"
  shows "\<exists>new. challenges (store_of (top_up ai P u now remaining s)) = challenges s @ new
      \<and> list_all (\<lambda>c. status c = ACTIVE \<and> c_userId c = u \<and> next_uuid s \<le> c_id c) new
      \<and> transactions (store_of (top_up ai P u now remaining s)) = transactions s
      \<and> savings_goals (store_of (top_up ai P u now remaining s)) = savings_goals s
      \<and> points_transactions (store_of (top_up ai P u now remaining s)) = points_transactions s
      \<and> wf_store (store_of (top_up ai P u now remaining s))
      \<and> next_uuid s \<le> next_uuid (store_of (top_up ai P u now remaining s))"
proof (cases "length remaining < 3")
  case False
  then show ?thesis using assms by (intro exI[of _ "[]"]) (simp add: top_up_def)
next
  case True
  let ?input = "(empty_input u)\<lparr>count := Some (3 - int (length remaining))\<rparr>"
  let ?p = "buildAIPrompt ?input now s"
  show ?thesis
  proof (cases "ai ?p")
    case None
    then show ?thesis using True assms
      by (intro exI[of _ "[]"]) (simp add: top_up_def generateChallenges_def Let_def)
  next
    case (Some reply)
    let ?new = "drafted (next_uuid s) u ?p now (parseAIChallenges P now reply)"
    let ?s1 = "s\<lparr>challenges := challenges s @ ?new,
                  next_uuid := next_uuid s + length (parseAIChallenges P now reply)\<rparr>"
    have fresh: "list_all (\<lambda>c. c_id c < next_uuid s) (challenges s)"
      using assms by (simp add: wf_store_def)
    have "generateChallenges ai P ?input now s = Return ?new ?s1"
      using Some insert_drafts_effect[OF fresh, where ds = "parseAIChallenges P now reply"
               and u = u and p = ?p and now = now and acc = "[]"]
      by (simp add: generateChallenges_def Let_def empty_input_def)
    then have t: "top_up ai P u now remaining s = Return (remaining @ ?new) ?s1"
      using True by (simp add: top_up_def)
    show ?thesis
      unfolding t
      using wf_store_drafted[OF assms, where u = u and p = ?p and now = now
               and ds = "parseAIChallenges P now reply"]
        drafted_fresh[where u = u and n = "next_uuid s" and p = ?p and now = now
               and ds = "parseAIChallenges P now reply"]
      by (intro exI[of _ ?new]) simp
  qed
qed

lemma latestTransaction_challenges [simp]:
  "latestTransaction u (s\<lparr>challenges := tbl\<rparr>) = latestTransaction u s"
  by (simp add: latestTransaction_def)

lemma incremental_record_user [simp]: "c_userId (incremental_record t now d) = c_userId d"
  by (simp add: incremental_record_def expire_def merge_dto_def split: prod.splits)

text \<open>
  The incremental pass rewrites exactly the user's active records, each by
  \<open>incremental_final\<close>, appends what the top-up generated, and logs one reward for each
  record the newest transaction completes.
\<close>

lemma updateChallengesWithNewData_effect:
  assumes "wf_store s"
  shows "\<exists>new newpts.
      challenges (store_of (updateChallengesWithNewData ai P u now s))
        = map (\<lambda>d. if c_userId d = u \<and> status d = ACTIVE
                    then incremental_final (latestTransaction u s) now d else d) (challenges s)
          @ new
      \<and> list_all (\<lambda>c. status c = ACTIVE \<and> c_userId c = u \<and> next_uuid s \<le> c_id c) new
      \<and> transactions (store_of (updateChallengesWithNewData ai P u now s)) = transactions s
      \<and> savings_goals (store_of (updateChallengesWithNewData ai P u now s)) = savings_goals s
      \<and> wf_store (store_of (updateChallengesWithNewData ai P u now s))
      \<and> next_uuid s \<le> next_uuid (store_of (updateChallengesWithNewData ai P u now s))
      \<and> points_transactions (store_of (updateChallengesWithNewData ai P u now s))
          = points_transactions s @ newpts
      \<and> list_all (\<lambda>t. pt_type t = earn) newpts
      \<and> map pt_challengeId newpts
           = map (\<lambda>c. Some (c_id c))
               (filter (\<lambda>d. case latestTransaction u s of None \<Rightarrow> False
                             | Some t \<Rightarrow> incremental_completes t now d)
                  (filter (\<lambda>c. c_userId c = u \<and> status c = ACTIVE) (challenges s)))"
proof -
  let ?Q = "\<lambda>c. c_userId c = u \<and> status c = ACTIVE"
  let ?tbl = "challenges s"
  let ?cs = "filter ?Q ?tbl"
  let ?s1 = "s\<lparr>challenges := map (\<lambda>d. if ?Q d then expire now d else d) ?tbl\<rparr>"
  let ?out = "updateChallengesWithNewData ai P u now s"
  have dist: "distinct (map c_id ?tbl)" and wfl: "wf_ledger s"
    using assms by (simp_all add: wf_store_def)
  have ga: "getActiveChallenges u now s = Return ?cs ?s1"
    using dist by (rule getActiveChallenges_effect)
  have ids1: "map c_id (challenges ?s1) = map c_id ?tbl"
    by (simp add: map_if_ids del: map_map)
  show ?thesis
  proof (cases "latestTransaction u s")
    case None
    have out: "?out = Return ?cs ?s1"
      using ga None by (simp add: updateChallengesWithNewData_def)
    have wf1: "wf_store ?s1"
      using assms ids1 wfl by (intro wf_store_after[of s ?s1]) simp_all
    show ?thesis
      unfolding out using None wf1
      by (intro exI[of _ "[]"]) (simp add: incremental_final_def)
  next
    case (Some t)
    have d1: "distinct (map c_id (challenges ?s1))" using dist by (simp only: ids1)
    have d2: "distinct (map c_id ?cs)" using dist by (rule distinct_map_filter)
    have sub: "\<forall>c\<in>set ?cs. expire now c \<in> set (challenges ?s1)" by auto
    have wf1: "wf_ledger ?s1" using wfl by simp
    from incremental_loop_effect[OF d1 d2 sub wf1, of t "[]"]
    obtain upd s2 newpts where
      loop: "incremental_loop ?cs t now [] ?s1 = (upd, s2)"
      and tbl2: "challenges s2 = apply_local (incremental_record t now) ?cs (challenges ?s1)"
      and fr2: "transactions s2 = transactions ?s1" "savings_goals s2 = savings_goals ?s1"
        "wf_ledger s2" "next_uuid ?s1 \<le> next_uuid s2"
        "points_transactions s2 = points_transactions ?s1 @ newpts"
        "list_all (\<lambda>t. pt_type t = earn) newpts"
        "map pt_challengeId newpts
           = map (\<lambda>c. Some (c_id c)) (filter (incremental_completes t now) ?cs)"
      by blast
    have tbl2': "challenges s2 = map (\<lambda>d. if ?Q d then incremental_record t now d else d) ?tbl"
      unfolding tbl2 using apply_local_after_expire[OF dist, of "expire now"] by simp
    have ids2: "map c_id (challenges s2) = map c_id ?tbl"
      unfolding tbl2' by (simp add: map_if_ids del: map_map)
    have dist2: "distinct (map c_id (challenges s2))" using dist by (simp only: ids2)
    let ?rem = "filter ?Q (challenges s2)"
    let ?s3 = "s2\<lparr>challenges := map (\<lambda>d. if ?Q d then expire now d else d) (challenges s2)\<rparr>"
    have ga2: "getActiveChallenges u now s2 = Return ?rem ?s3"
      using dist2 by (rule getActiveChallenges_effect)
    have tbl3: "challenges ?s3
                  = map (\<lambda>d. if ?Q d then incremental_final (Some t) now d else d) ?tbl"
      by (simp add: tbl2' incremental_final_def expire_active_def cong: if_cong)
    have ids3: "map c_id (challenges ?s3) = map c_id ?tbl"
      using ids2 by (simp add: map_if_ids del: map_map)
    have wf3: "wf_store ?s3"
      using assms ids3 fr2 by (intro wf_store_after[of s ?s3]) simp_all
    have out: "?out = top_up ai P u now ?rem ?s3"
      using ga Some loop ga2 by (simp add: updateChallengesWithNewData_def)
    from top_up_effect[OF wf3, of ai P u now ?rem]
    obtain new where
      t1: "challenges (store_of (top_up ai P u now ?rem ?s3)) = challenges ?s3 @ new"
      and t2: "list_all (\<lambda>c. status c = ACTIVE \<and> c_userId c = u \<and> next_uuid ?s3 \<le> c_id c) new"
      and t3: "transactions (store_of (top_up ai P u now ?rem ?s3)) = transactions ?s3"
        "savings_goals (store_of (top_up ai P u now ?rem ?s3)) = savings_goals ?s3"
        "points_transactions (store_of (top_up ai P u now ?rem ?s3)) = points_transactions ?s3"
        "wf_store (store_of (top_up ai P u now ?rem ?s3))"
        "next_uuid ?s3 \<le> next_uuid (store_of (top_up ai P u now ?rem ?s3))"
      by blast
    have t2': "list_all (\<lambda>c. status c = ACTIVE \<and> c_userId c = u \<and> next_uuid s \<le> c_id c) new"
      using t2 fr2(4) by (auto simp: list_all_iff)
    show ?thesis
      unfolding out
      using t1 t2' t3 fr2 Some
      by (intro exI[of _ new] exI[of _ newpts]) (simp add: tbl3)
  qed
qed

subsection \<open>One record through a pass\<close>

lemma awards_append:
  assumes "points_transactions s' = points_transactions s @ new"
    and "list_all (\<lambda>t. pt_type t = earn) new"
    and "map pt_challengeId new = map (\<lambda>c. Some (c_id c)) cs"
  shows "awards k s' = awards k s + length (filter (\<lambda>c. c_id c = k) cs)"
proof -
  have "filter (\<lambda>t. pt_type t = earn \<and> pt_challengeId t = Some k) new
          = filter (\<lambda>t. pt_challengeId t = Some k) new"
    using assms(2) by (auto simp: list_all_iff intro: filter_cong)
  then have "length (filter (\<lambda>t. pt_type t = earn \<and> pt_challengeId t = Some k) new)
          = length (filter (\<lambda>x. x = Some k) (map pt_challengeId new))"
    by (simp add: filter_map o_def)
  also have "\<dots> = length (filter (\<lambda>c. c_id c = k) cs)"
    unfolding assms(3) by (simp add: filter_map o_def)
  finally show ?thesis using assms(1) by (simp add: awards_def)
qed

lemma count_by_id:
  assumes "distinct (map c_id tbl)" and "d \<in> set tbl"
  shows "length (filter (\<lambda>c. c_id c = c_id d) (filter Q tbl)) = (if Q d then 1 else 0)"
proof -
  have "filter (\<lambda>c. c_id c = c_id d) (filter Q tbl) = (if Q d then [d] else [])"
    using assms
  proof (induction tbl)
    case Nil then show ?case by simp
  next
    case (Cons a tbl)
    show ?case
    proof (cases "a = d")
      case True
      then have "c_id d \<notin> c_id ` set tbl" using Cons.prems(1) by simp
      then have "\<forall>c\<in>set tbl. c_id c \<noteq> c_id d" by (metis image_eqI)
      then have "filter (\<lambda>c. c_id c = c_id d) (filter Q tbl) = []"
        by (auto simp: filter_empty_conv)
      then show ?thesis using True by simp
    next
      case False
      then have "d \<in> set tbl" using Cons.prems(2) by simp
      moreover have "c_id a \<notin> c_id ` set tbl" using Cons.prems(1) by simp
      then have "c_id a \<noteq> c_id d" using \<open>d \<in> set tbl\<close> by (metis image_eqI)
      ultimately show ?thesis using Cons by simp
    qed
  qed
  then show ?thesis by simp
qed

lemma find_append_Some: "find Q xs = Some x \<Longrightarrow> find Q (xs @ ys) = Some x"
  by (induction xs) (auto split: if_splits)

lemma lookup_mapped:
  assumes "distinct (map c_id tbl)" and "d \<in> set tbl" and "\<And>x. c_id (f x) = c_id x"
  shows "find (\<lambda>x. c_id x = c_id d) (map f tbl @ new) = Some (f d)"
proof -
  have "distinct (map c_id (map f tbl))" using assms(1,3) by (simp add: o_def)
  moreover have "f d \<in> set (map f tbl)" using assms(2) by simp
  ultimately have "find (\<lambda>x. c_id x = c_id (f d)) (map f tbl) = Some (f d)"
    by (rule find_distinct_key)
  then show ?thesis by (simp add: assms(3) find_append_Some)
qed

lemma incremental_final_id [simp]: "c_id (incremental_final l now d) = c_id d"
  by (simp add: incremental_final_def expire_active_def split: option.splits)

text \<open>The stored record and the reward count of one challenge after the batch pass.\<close>

lemma checkProgress_record:
  assumes "wf_store s" and "d \<in> set (challenges s)"
  shows "getChallengeById (c_id d) (store_of (checkProgress u now s))
           = Some (if c_userId d = u \<and> status d = ACTIVE
                   then batch_record (db_find (\<lambda>t. t_userId t = u) (transactions s))
                          (db_find (\<lambda>g. g_userId g = u) (savings_goals s)) now d
                   else d)"
    and "awards (c_id d) (store_of (checkProgress u now s))
           = awards (c_id d) s
             + (if c_userId d = u \<and> status d = ACTIVE
                   \<and> isChallengeCompleted d
                        (calculateProgress d (db_find (\<lambda>t. t_userId t = u) (transactions s))
                           (db_find (\<lambda>g. g_userId g = u) (savings_goals s)) now) now
                then 1 else 0)"
proof -
  let ?ts = "db_find (\<lambda>t. t_userId t = u) (transactions s)"
  let ?gs = "db_find (\<lambda>g. g_userId g = u) (savings_goals s)"
  let ?Q = "\<lambda>c. c_userId c = u \<and> status c = ACTIVE"
  let ?f = "\<lambda>d. if ?Q d then batch_record ?ts ?gs now d else d"
  let ?done = "\<lambda>c. isChallengeCompleted c (calculateProgress c ?ts ?gs now) now"
  have dist: "distinct (map c_id (challenges s))" using assms(1) by (simp add: wf_store_def)
  from checkProgress_effect[OF assms(1), of u now]
  obtain upd s' new where run: "checkProgress u now s = Return upd s'"
    and tbl: "challenges s' = map ?f (challenges s)"
    and pts: "points_transactions s' = points_transactions s @ new"
      "list_all (\<lambda>t. pt_type t = earn) new"
      "map pt_challengeId new = map (\<lambda>c. Some (c_id c)) (filter ?done (filter ?Q (challenges s)))"
    by blast
  have "find (\<lambda>x. c_id x = c_id d) (map ?f (challenges s) @ []) = Some (?f d)"
    using dist assms(2) by (rule lookup_mapped) simp
  then show "getChallengeById (c_id d) (store_of (checkProgress u now s)) = Some (?f d)"
    by (simp add: run tbl getChallengeById_def db_findOne_def)
  have "awards (c_id d) s' = awards (c_id d) s
          + length (filter (\<lambda>c. c_id c = c_id d) (filter ?done (filter ?Q (challenges s))))"
    using pts by (rule awards_append)
  also have "filter ?done (filter ?Q (challenges s))
               = filter (\<lambda>c. ?Q c \<and> ?done c) (challenges s)"
    by (simp add: conj_commute)
  also have "length (filter (\<lambda>c. c_id c = c_id d) (filter (\<lambda>c. ?Q c \<and> ?done c) (challenges s)))
               = (if ?Q d \<and> ?done d then 1 else 0)"
    using dist assms(2) by (rule count_by_id)
  finally have "awards (c_id d) s' = awards (c_id d) s + (if ?Q d \<and> ?done d then 1 else 0)" .
  then show "awards (c_id d) (store_of (checkProgress u now s))
           = awards (c_id d) s
             + (if c_userId d = u \<and> status d = ACTIVE
                   \<and> isChallengeCompleted d
                        (calculateProgress d (db_find (\<lambda>t. t_userId t = u) (transactions s))
                           (db_find (\<lambda>g. g_userId g = u) (savings_goals s)) now) now
                then 1 else 0)"
    by (simp add: run)
qed

text \<open>The same for the incremental pass.\<close>

lemma updateChallengesWithNewData_record:
  assumes "wf_store s" and "d \<in> set (challenges s)"
  shows "getChallengeById (c_id d) (store_of (updateChallengesWithNewData ai P u now s))
           = Some (if c_userId d = u \<and> status d = ACTIVE
                   then incremental_final (latestTransaction u s) now d else d)"
    and "awards (c_id d) (store_of (updateChallengesWithNewData ai P u now s))
           = awards (c_id d) s
             + (if c_userId d = u \<and> status d = ACTIVE
                   \<and> (case latestTransaction u s of None \<Rightarrow> False
                       | Some t \<Rightarrow> incremental_completes t now d)
                then 1 else 0)"
proof -
  let ?Q = "\<lambda>c. c_userId c = u \<and> status c = ACTIVE"
  let ?f = "\<lambda>d. if ?Q d then incremental_final (latestTransaction u s) now d else d"
  let ?done = "\<lambda>d. case latestTransaction u s of None \<Rightarrow> False
                     | Some t \<Rightarrow> incremental_completes t now d"
  let ?s' = "store_of (updateChallengesWithNewData ai P u now s)"
  have dist: "distinct (map c_id (challenges s))" using assms(1) by (simp add: wf_store_def)
  from updateChallengesWithNewData_effect[OF assms(1), of ai P u now]
  obtain new newpts where tbl: "challenges ?s' = map ?f (challenges s) @ new"
    and pts: "points_transactions ?s' = points_transactions s @ newpts"
      "list_all (\<lambda>t. pt_type t = earn) newpts"
      "map pt_challengeId newpts
         = map (\<lambda>c. Some (c_id c)) (filter ?done (filter ?Q (challenges s)))"
    by blast
  have "find (\<lambda>x. c_id x = c_id d) (map ?f (challenges s) @ new) = Some (?f d)"
    using dist assms(2) by (rule lookup_mapped) simp
  then show "getChallengeById (c_id d) ?s' = Some (?f d)"
    by (simp add: tbl getChallengeById_def db_findOne_def)
  have "awards (c_id d) ?s' = awards (c_id d) s
          + length (filter (\<lambda>c. c_id c = c_id d) (filter ?done (filter ?Q (challenges s))))"
    using pts by (rule awards_append)
  also have "filter ?done (filter ?Q (challenges s))
               = filter (\<lambda>c. ?Q c \<and> ?done c) (challenges s)"
    by (simp add: conj_commute)
  also have "length (filter (\<lambda>c. c_id c = c_id d) (filter (\<lambda>c. ?Q c \<and> ?done c) (challenges s)))
               = (if ?Q d \<and> ?done d then 1 else 0)"
    using dist assms(2) by (rule count_by_id)
  finally have "awards (c_id d) ?s' = awards (c_id d) s + (if ?Q d \<and> ?done d then 1 else 0)" .
  then show "awards (c_id d) (store_of (updateChallengesWithNewData ai P u now s))
           = awards (c_id d) s
             + (if c_userId d = u \<and> status d = ACTIVE
                   \<and> (case latestTransaction u s of None \<Rightarrow> False
                       | Some t \<Rightarrow> incremental_completes t now d)
                then 1 else 0)"
    by simp
qed

section \<open>Properties of the lifecycle\<close>

lemma find_in_set: "find Q xs = Some x \<Longrightarrow> x \<in> set xs"
  by (auto simp: find_Some_iff)

lemma wf_store_other_tables [simp]:
  "wf_store (s\<lparr>transactions := ts\<rparr>) = wf_store s"
  "wf_store (s\<lparr>savings_goals := gs\<rparr>) = wf_store s"
  by (simp_all add: wf_store_def wf_ledger_def)

lemma run_event_wf: "wf_store s \<Longrightarrow> wf_store (run_event ai P e s)"
proof (cases e)
  case (CheckProgress u now)
  assume "wf_store s"
  from checkProgress_effect[OF this, of u now] show ?thesis
    using CheckProgress by auto
next
  case (UpdateChallengesWithNewData u now)
  assume "wf_store s"
  from updateChallengesWithNewData_effect[OF this, of ai P u now] show ?thesis
    using UpdateChallengesWithNewData by auto
qed simp_all

lemma run_events_wf: "wf_store s \<Longrightarrow> wf_store (run_events ai P es s)"
  by (induction es arbitrary: s) (simp_all add: run_event_wf)

text \<open>A record that is not ACTIVE is carried unchanged through any call.\<close>

lemma run_event_keeps_terminal:
  assumes "wf_store s" and "d \<in> set (challenges s)" and "status d \<noteq> ACTIVE"
  shows "d \<in> set (challenges (run_event ai P e s))"
    and "awards (c_id d) (run_event ai P e s) = awards (c_id d) s"
proof -
  have "d \<in> set (challenges (run_event ai P e s))
        \<and> awards (c_id d) (run_event ai P e s) = awards (c_id d) s"
  proof (cases e)
    case (CheckProgress u now)
    from checkProgress_record[OF assms(1,2), of u now] assms(3)
    show ?thesis using CheckProgress
      by (auto simp: getChallengeById_def db_findOne_def dest: find_in_set)
  next
    case (UpdateChallengesWithNewData u now)
    from updateChallengesWithNewData_record[OF assms(1,2), of ai P u now] assms(3)
    show ?thesis using UpdateChallengesWithNewData
      by (auto simp: getChallengeById_def db_findOne_def dest: find_in_set)
  next
    case (RecordTransaction t)
    then show ?thesis using assms(2) by (simp add: awards_def)
  next
    case (SaveGoal g)
    then show ?thesis using assms(2) by (simp add: awards_def)
  qed
  then show "d \<in> set (challenges (run_event ai P e s))"
    and "awards (c_id d) (run_event ai P e s) = awards (c_id d) s" by simp_all
qed

lemma run_events_keep_terminal:
  assumes "wf_store s" and "d \<in> set (challenges s)" and "status d \<noteq> ACTIVE"
  shows "d \<in> set (challenges (run_events ai P es s))
         \<and> awards (c_id d) (run_events ai P es s) = awards (c_id d) s"
  using assms
proof (induction es arbitrary: s)
  case Nil then show ?case by simp
next
  case (Cons e es)
  have "wf_store (run_event ai P e s)" using Cons.prems(1) by (rule run_event_wf)
  moreover have "d \<in> set (challenges (run_event ai P e s))"
    and "awards (c_id d) (run_event ai P e s) = awards (c_id d) s"
    using run_event_keeps_terminal[OF Cons.prems] by simp_all
  ultimately show ?case using Cons.IH[of "run_event ai P e s"] Cons.prems(3) by simp
qed

lemma lookup_member:
  "wf_store s \<Longrightarrow> d \<in> set (challenges s) \<Longrightarrow> getChallengeById (c_id d) s = Some d"
  by (simp add: getChallengeById_def db_findOne_def wf_store_def find_distinct_key)

text \<open>
  C4, as stated, fails: \<open>updateChallenge\<close> puts a COMPLETED challenge back to ACTIVE.
\<close>

theorem update_reopens_completed_counterexample:
  "map_option status
     (getChallengeById 0 (empty_store\<lparr>challenges := [base_challenge\<lparr>status := COMPLETED\<rparr>]\<rparr>))
     = Some COMPLETED
   \<and> map_option status
     (getChallengeById 0
        (store_of (updateChallenge 0 \<lparr>u_status = Some ACTIVE, u_progress = None\<rparr> 5
           (empty_store\<lparr>challenges := [base_challenge\<lparr>status := COMPLETED\<rparr>]\<rparr>))))
     = Some ACTIVE"
  by (simp add: getChallengeById_def db_findOne_def updateChallenge_def db_update_def
        merge_dto_def empty_store_def base_challenge_def Let_def)

text \<open>
  C4, amended. A challenge that is COMPLETED, FAILED or EXPIRED in a well-formed store is
  found unchanged, status and progress included, after any sequence of evaluation passes
  (batch and incremental, for any user and instant) with any transactions and goals
  recorded in between.
\<close>

theorem terminal_challenge_survives_passes:
  assumes "wf_store s" and "d \<in> set (challenges s)" and "status d \<noteq> ACTIVE"
  shows "getChallengeById (c_id d) (run_events ai P es s) = Some d"
proof -
  have "wf_store (run_events ai P es s)" using assms(1) by (rule run_events_wf)
  moreover have "d \<in> set (challenges (run_events ai P es s))"
    using run_events_keep_terminal[OF assms] by simp
  ultimately show ?thesis by (rule lookup_member)
qed


theorem terminal_challenge_survives_passes_witness:
  "wf_store (savings_store\<lparr>challenges := challenges savings_store
                 @ [base_challenge\<lparr>c_id := 1, status := FAILED\<rparr>], next_uuid := 2\<rparr>)
   \<and> status (base_challenge\<lparr>c_id := 1, status := FAILED\<rparr>) \<noteq> ACTIVE
   \<and> getChallengeById 1
        (run_events silent_model bogus_parser
           [RecordTransaction (base_transaction\<lparr>t_amount := 250, t_type := income,
                                                t_createdAt := 10\<rparr>),
            UpdateChallengesWithNewData ''ana'' 20, CheckProgress ''ana'' 30]
           (savings_store\<lparr>challenges := challenges savings_store
                 @ [base_challenge\<lparr>c_id := 1, status := FAILED\<rparr>], next_uuid := 2\<rparr>))
       = Some (base_challenge\<lparr>c_id := 1, status := FAILED\<rparr>)"
proof -
  let ?d = "base_challenge\<lparr>c_id := 1, status := FAILED\<rparr>"
  let ?s = "savings_store\<lparr>challenges := challenges savings_store @ [?d], next_uuid := 2\<rparr>"
  have h1: "wf_store ?s"
    by (simp add: wf_store_def wf_ledger_def savings_store_def empty_store_def
          base_challenge_def)
  have h2: "?d \<in> set (challenges ?s)" by simp
  have h3: "status ?d \<noteq> ACTIVE" by simp
  have cid: "c_id ?d = 1" by simp
  note kept = terminal_challenge_survives_passes[OF h1 h2 h3, where ai = silent_model
      and P = bogus_parser
      and es = "[RecordTransaction (base_transaction\<lparr>t_amount := 250, t_type := income,
                                                t_createdAt := 10\<rparr>),
            UpdateChallengesWithNewData ''ana'' 20, CheckProgress ''ana'' 30]"]
  show ?thesis using h1 h3 kept[unfolded cid] by (intro conjI)
qed

subsection \<open>Rewards\<close>

lemma batch_record_completed:
  "status d = ACTIVE \<Longrightarrow>
   (status (batch_record ts gs now d) = COMPLETED)
     = isChallengeCompleted d (calculateProgress d ts gs now) now"
  by (simp add: batch_record_def merge_dto_def expire_def Let_def)

lemma progress_switch_status:
  "status (fst (progress_switch d t now)) = status d
   \<or> status (fst (progress_switch d t now)) = FAILED"
  by (simp add: progress_switch_def Let_def)

lemma incremental_final_completed:
  assumes "status d = ACTIVE"
  shows "(status (incremental_final l now d) = COMPLETED)
           = (case l of None \<Rightarrow> False | Some t \<Rightarrow> incremental_completes t now d)"
proof (cases l)
  case None
  then show ?thesis using assms
    by (simp add: incremental_final_def expire_def merge_dto_def)
next
  case (Some t)
  obtain upd su sc where sw: "progress_switch d t now = (upd, su, sc)"
    by (cases "progress_switch d t now") auto
  have st: "status upd = ACTIVE \<or> status upd = FAILED"
    using progress_switch_status[of d t now] assms by (simp add: sw)
  have "(status (expire_active now (incremental_record t now d)) = COMPLETED) = sc"
    using st assms
    by (auto simp: incremental_record_def sw expire_active_def expire_def merge_dto_def)
  then show ?thesis using Some
    by (simp add: incremental_final_def incremental_completes_def sw)
qed

lemma awards_issued_append:
  assumes "awards_issued s" and "next_uuid s \<le> next_uuid s'"
    and "points_transactions s' = points_transactions s @ new"
    and "map pt_challengeId new = map (\<lambda>c. Some (c_id c)) cs"
    and "\<forall>c\<in>set cs. c_id c < next_uuid s"
  shows "awards_issued s'"
proof -
  have "case pt_challengeId t of None \<Rightarrow> True | Some k \<Rightarrow> k < next_uuid s'"
    if "t \<in> set new" for t
  proof -
    have "pt_challengeId t \<in> set (map pt_challengeId new)" using that by simp
    then obtain c where "c \<in> set cs" "pt_challengeId t = Some (c_id c)"
      unfolding assms(4) by auto
    then show ?thesis using assms(2,5) by auto
  qed
  moreover have "case pt_challengeId t of None \<Rightarrow> True | Some k \<Rightarrow> k < next_uuid s'"
    if "t \<in> set (points_transactions s)" for t
    using that assms(1,2) by (auto simp: awards_issued_def list_all_iff split: option.splits)
  ultimately show ?thesis
    unfolding awards_issued_def assms(3) by (auto simp: list_all_iff)
qed

lemma awards_unissued:
  "awards_issued s \<Longrightarrow> next_uuid s \<le> k \<Longrightarrow> awards k s = 0"
  by (fastforce simp: awards_issued_def awards_def list_all_iff filter_empty_conv)

text \<open>Both passes keep the ledger in agreement with the challenges.\<close>

lemma checkProgress_rewards:
  assumes "wf_store s" and "rewarded_once s" and "awards_issued s"
  shows "rewarded_once (store_of (checkProgress u now s))
         \<and> awards_issued (store_of (checkProgress u now s))"
proof -
  let ?ts = "db_find (\<lambda>t. t_userId t = u) (transactions s)"
  let ?gs = "db_find (\<lambda>g. g_userId g = u) (savings_goals s)"
  let ?Q = "\<lambda>c. c_userId c = u \<and> status c = ACTIVE"
  let ?f = "\<lambda>d. if ?Q d then batch_record ?ts ?gs now d else d"
  let ?done = "\<lambda>c. isChallengeCompleted c (calculateProgress c ?ts ?gs now) now"
  let ?s' = "store_of (checkProgress u now s)"
  from checkProgress_effect[OF assms(1), of u now]
  obtain upd s' new where run: "checkProgress u now s = Return upd s'"
    and tbl: "challenges s' = map ?f (challenges s)"
    and mono: "next_uuid s \<le> next_uuid s'"
    and pts: "points_transactions s' = points_transactions s @ new"
      "map pt_challengeId new = map (\<lambda>c. Some (c_id c)) (filter ?done (filter ?Q (challenges s)))"
    by blast
  have old: "\<forall>c\<in>set (challenges s). c_id c < next_uuid s"
    using assms(1) by (simp add: wf_store_def list_all_iff)
  have kept: "awards (c_id (?f d)) ?s' = (if status (?f d) = COMPLETED then 1 else 0)"
    if d: "d \<in> set (challenges s)" for d
  proof -
    have base: "awards (c_id d) s = (if status d = COMPLETED then 1 else 0)"
      using assms(2) d by (simp add: rewarded_once_def list_all_iff)
    show ?thesis
      using checkProgress_record(2)[OF assms(1) d, of u now] base
        batch_record_completed[of d ?ts ?gs now]
      by (cases "?Q d") auto
  qed
  have r: "rewarded_once ?s'"
    unfolding rewarded_once_def list_all_iff
  proof
    fix c assume "c \<in> set (challenges ?s')"
    then have "c \<in> ?f ` set (challenges s)" unfolding run store_of.simps tbl set_map .
    then obtain d where "d \<in> set (challenges s)" "c = ?f d" by (rule imageE)
    then show "awards (c_id c) ?s' = (if status c = COMPLETED then 1 else 0)"
      using kept by blast
  qed
  have "awards_issued s'"
    by (rule awards_issued_append[OF assms(3) mono pts]) (use old in auto)
  then show ?thesis using r by (simp add: run)
qed

lemma updateChallengesWithNewData_rewards:
  assumes "wf_store s" and "rewarded_once s" and "awards_issued s"
  shows "rewarded_once (store_of (updateChallengesWithNewData ai P u now s))
         \<and> awards_issued (store_of (updateChallengesWithNewData ai P u now s))"
proof -
  let ?Q = "\<lambda>c. c_userId c = u \<and> status c = ACTIVE"
  let ?l = "latestTransaction u s"
  let ?f = "\<lambda>d. if ?Q d then incremental_final ?l now d else d"
  let ?done = "\<lambda>d. case ?l of None \<Rightarrow> False | Some t \<Rightarrow> incremental_completes t now d"
  let ?s' = "store_of (updateChallengesWithNewData ai P u now s)"
  from updateChallengesWithNewData_effect[OF assms(1), of ai P u now]
  obtain new newpts where tbl: "challenges ?s' = map ?f (challenges s) @ new"
    and new: "list_all (\<lambda>c. status c = ACTIVE \<and> c_userId c = u \<and> next_uuid s \<le> c_id c) new"
    and mono: "next_uuid s \<le> next_uuid ?s'"
    and pts: "points_transactions ?s' = points_transactions s @ newpts"
      "list_all (\<lambda>t. pt_type t = earn) newpts"
      "map pt_challengeId newpts
         = map (\<lambda>c. Some (c_id c)) (filter ?done (filter ?Q (challenges s)))"
    by blast
  have old: "\<forall>c\<in>set (challenges s). c_id c < next_uuid s"
    using assms(1) by (simp add: wf_store_def list_all_iff)
  have kept: "awards (c_id (?f d)) ?s' = (if status (?f d) = COMPLETED then 1 else 0)"
    if d: "d \<in> set (challenges s)" for d
  proof -
    have base: "awards (c_id d) s = (if status d = COMPLETED then 1 else 0)"
      using assms(2) d by (simp add: rewarded_once_def list_all_iff)
    show ?thesis
      using updateChallengesWithNewData_record(2)[OF assms(1) d, of ai P u now] base
        incremental_final_completed[of d ?l now]
      by (cases "?Q d") auto
  qed
  have fresh: "awards (c_id c) ?s' = (if status c = COMPLETED then 1 else 0)"
    if c: "c \<in> set new" for c
  proof -
    have k: "next_uuid s \<le> c_id c" and st: "status c = ACTIVE"
      using new c by (auto simp: list_all_iff)
    have "filter (\<lambda>x. c_id x = c_id c) (filter ?done (filter ?Q (challenges s))) = []"
      using old k by (fastforce simp: filter_empty_conv)
    then have "awards (c_id c) ?s' = awards (c_id c) s"
      using awards_append[OF pts, of "c_id c"] by simp
    then show ?thesis using awards_unissued[OF assms(3) k] st by simp
  qed
  have r: "rewarded_once ?s'"
    unfolding rewarded_once_def list_all_iff
  proof
    fix c assume "c \<in> set (challenges ?s')"
    then have "c \<in> ?f ` set (challenges s) \<or> c \<in> set new"
      unfolding tbl set_append set_map by blast
    then show "awards (c_id c) ?s' = (if status c = COMPLETED then 1 else 0)"
    proof
      assume "c \<in> ?f ` set (challenges s)"
      then obtain d where "d \<in> set (challenges s)" "c = ?f d" by (rule imageE)
      then show ?thesis using kept by blast
    next
      assume "c \<in> set new"
      then show ?thesis by (rule fresh)
    qed
  qed
  have "awards_issued ?s'"
    by (rule awards_issued_append[OF assms(3) mono pts(1,3)]) (use old in auto)
  then show ?thesis using r by simp
qed

lemma rewards_other_tables [simp]:
  "rewarded_once (s\<lparr>transactions := ts\<rparr>) = rewarded_once s"
  "rewarded_once (s\<lparr>savings_goals := gs\<rparr>) = rewarded_once s"
  "awards_issued (s\<lparr>transactions := ts\<rparr>) = awards_issued s"
  "awards_issued (s\<lparr>savings_goals := gs\<rparr>) = awards_issued s"
  by (simp_all add: rewarded_once_def awards_issued_def awards_def cong: option.case_cong)

lemma run_events_rewards:
  assumes "wf_store s" and "rewarded_once s" and "awards_issued s"
  shows "rewarded_once (run_events ai P es s) \<and> awards_issued (run_events ai P es s)"
  using assms
proof (induction es arbitrary: s)
  case Nil then show ?case by simp
next
  case (Cons e es)
  have wf: "wf_store (run_event ai P e s)" using Cons.prems(1) by (rule run_event_wf)
  have "rewarded_once (run_event ai P e s) \<and> awards_issued (run_event ai P e s)"
  proof (cases e)
    case (CheckProgress u now)
    then show ?thesis using checkProgress_rewards[OF Cons.prems] by simp
  next
    case (UpdateChallengesWithNewData u now)
    then show ?thesis using updateChallengesWithNewData_rewards[OF Cons.prems] by simp
  next
    case (RecordTransaction t)
    then show ?thesis using Cons.prems by simp
  next
    case (SaveGoal g)
    then show ?thesis using Cons.prems by simp
  qed
  then show ?case using Cons.IH[OF wf] by simp
qed

text \<open>
  Passes that run one after the other reward once. Take a well-formed store whose ledger
  agrees with its challenges (one reward logged for each COMPLETED challenge, none for the
  others), and let passes and inserts follow in any number, each pass returning before
  the next call arrives. Then the ledger still agrees with the challenges, and a challenge
  that was COMPLETED at the start is unchanged and still has its one reward. The passes
  that overlap are the subject of the last section.
\<close>

lemma sequential_passes_reward_once:
  assumes "wf_store s" and "rewarded_once s" and "awards_issued s"
  shows "list_all (\<lambda>c. awards (c_id c) (run_events ai P es s)
                          = (if status c = COMPLETED then 1 else 0))
           (challenges (run_events ai P es s))
         \<and> list_all (\<lambda>d. status d = COMPLETED \<longrightarrow>
                 getChallengeById (c_id d) (run_events ai P es s) = Some d
                 \<and> awards (c_id d) (run_events ai P es s) = 1)
             (challenges s)"
proof -
  have "rewarded_once (run_events ai P es s)"
    using run_events_rewards[OF assms] by simp
  then have first: "list_all (\<lambda>c. awards (c_id c) (run_events ai P es s)
                          = (if status c = COMPLETED then 1 else 0))
           (challenges (run_events ai P es s))"
    by (simp add: rewarded_once_def)
  have "getChallengeById (c_id d) (run_events ai P es s) = Some d
        \<and> awards (c_id d) (run_events ai P es s) = 1"
    if d: "d \<in> set (challenges s)" and st: "status d = COMPLETED" for d
  proof -
    have na: "status d \<noteq> ACTIVE" using st by simp
    have "awards (c_id d) s = 1"
      using assms(2) d st by (simp add: rewarded_once_def list_all_iff)
    moreover have "wf_store (run_events ai P es s)" using assms(1) by (rule run_events_wf)
    ultimately show ?thesis
      using run_events_keep_terminal[OF assms(1) d na, of ai P es] lookup_member by simp
  qed
  then show ?thesis using first by (simp add: list_all_iff)
qed

lemma sequential_passes_reward_once_example:
  "wf_store savings_store \<and> rewarded_once savings_store \<and> awards_issued savings_store
   \<and> map (\<lambda>c. (c_id c, status c,
                 awards (c_id c) (run_events silent_model bogus_parser sample_events savings_store)))
        (challenges (run_events silent_model bogus_parser sample_events savings_store))
       = [(0, COMPLETED, 1), (3, ACTIVE, 0), (4, COMPLETED, 1), (5, FAILED, 0),
          (7, ACTIVE, 0), (8, ACTIVE, 0), (9, ACTIVE, 0)]
   \<and> list_all (\<lambda>c. awards (c_id c) (run_events silent_model bogus_parser sample_events savings_store)
                          = (if status c = COMPLETED then 1 else 0))
           (challenges (run_events silent_model bogus_parser sample_events savings_store))"
proof -
  have h1: "wf_store savings_store" by code_simp
  have h2: "rewarded_once savings_store" by code_simp
  have h3: "awards_issued savings_store" by code_simp
  have run: "map (\<lambda>c. (c_id c, status c,
                 awards (c_id c) (run_events silent_model bogus_parser sample_events savings_store)))
        (challenges (run_events silent_model bogus_parser sample_events savings_store))
       = [(0, COMPLETED, 1), (3, ACTIVE, 0), (4, COMPLETED, 1), (5, FAILED, 0),
          (7, ACTIVE, 0), (8, ACTIVE, 0), (9, ACTIVE, 0)]"
    by code_simp
  from sequential_passes_reward_once[OF h1 h2 h3, of silent_model bogus_parser sample_events]
  show ?thesis using h1 h2 h3 run by (intro conjI) simp_all
qed

text \<open>
  C3, as stated, fails. Evaluated by the batch pass at the end date itself, with no
  transaction at all, the CATEGORY_BAN challenge ends COMPLETED, with its reward, and the
  SAVINGS challenge FAILED; neither is EXPIRED.
\<close>

theorem overdue_not_expired_counterexample:
  "map (\<lambda>c. (c_id c, c_type c, endDate c, status c,
              awards (c_id c) (store_of (checkProgress ''ana'' (7 * day_ms) ban_store))))
     (challenges (store_of (checkProgress ''ana'' (7 * day_ms) ban_store)))
   = [(0, CATEGORY_BAN, 7 * day_ms, COMPLETED, 1), (1, SAVINGS, 7 * day_ms, FAILED, 0)]"
  by code_simp

lemma incremental_record_endDate [simp]: "endDate (incremental_record t now d) = endDate d"
  by (simp add: incremental_record_def expire_def merge_dto_def split: prod.splits)

lemma incremental_final_expired:
  assumes "status d = ACTIVE" and "endDate d < now"
    and "case l of None \<Rightarrow> True
         | Some t \<Rightarrow> \<not> incremental_completes t now d
                     \<and> status (fst (progress_switch d t now)) \<noteq> FAILED"
  shows "status (incremental_final l now d) = EXPIRED"
proof (cases l)
  case None
  then show ?thesis using assms(2)
    by (simp add: incremental_final_def expire_def merge_dto_def)
next
  case (Some t)
  obtain upd su sc where sw: "progress_switch d t now = (upd, su, sc)"
    by (cases "progress_switch d t now") auto
  have nsc: "\<not> sc" and st: "status upd = ACTIVE"
    using assms(3) Some progress_switch_status[of d t now] assms(1)
    by (auto simp: incremental_completes_def sw)
  have "status (incremental_record t now d) = ACTIVE
        \<or> status (incremental_record t now d) = EXPIRED"
    using nsc st assms(2) by (simp add: incremental_record_def sw expire_def merge_dto_def)
  then have "status (expire_active now (incremental_record t now d)) = EXPIRED"
    using assms(2) by (auto simp: expire_active_def expire_def merge_dto_def)
  then show ?thesis using Some by (simp add: incremental_final_def)
qed

text \<open>The stored record after the expiry step with which both passes begin.\<close>

lemma getActiveChallenges_record:
  assumes "wf_store s" and "d \<in> set (challenges s)"
  shows "getChallengeById (c_id d) (store_of (getActiveChallenges u now s))
           = Some (if c_userId d = u \<and> status d = ACTIVE then expire now d else d)"
    and "points_transactions (store_of (getActiveChallenges u now s)) = points_transactions s"
proof -
  let ?f = "\<lambda>d. if c_userId d = u \<and> status d = ACTIVE then expire now d else d"
  have dist: "distinct (map c_id (challenges s))" using assms(1) by (simp add: wf_store_def)
  have "find (\<lambda>x. c_id x = c_id d) (map ?f (challenges s) @ []) = Some (?f d)"
    using dist assms(2) by (rule lookup_mapped) simp
  then show "getChallengeById (c_id d) (store_of (getActiveChallenges u now s)) = Some (?f d)"
    by (simp add: getActiveChallenges_effect[OF dist] getChallengeById_def db_findOne_def)
  show "points_transactions (store_of (getActiveChallenges u now s)) = points_transactions s"
    by (simp add: getActiveChallenges_effect[OF dist])
qed

text \<open>
  C3, amended. Take an active challenge of the user. When its end date is the evaluation
  instant itself, the batch pass leaves it COMPLETED, with one more reward, when its
  completion test holds, and FAILED, with no reward, otherwise: not EXPIRED. When its end
  date is strictly before the instant, the expiry step with which both passes begin
  (\<open>getActiveChallenges\<close>) stores it as EXPIRED and issues no reward; and the
  incremental pass, when the newest transaction of the user (if any) neither completes nor
  fails the challenge, leaves it EXPIRED with no reward.
\<close>

theorem overdue_challenge_outcome:
  assumes "wf_store s" and "d \<in> set (challenges s)"
    and "c_userId d = u" and "status d = ACTIVE"
  shows "(endDate d = now \<longrightarrow>
            (let completed = isChallengeCompleted d
                   (calculateProgress d (db_find (\<lambda>t. t_userId t = u) (transactions s))
                      (db_find (\<lambda>g. g_userId g = u) (savings_goals s)) now) now;
                 s' = store_of (checkProgress u now s)
             in map_option status (getChallengeById (c_id d) s')
                  = Some (if completed then COMPLETED else FAILED)
                \<and> awards (c_id d) s' = awards (c_id d) s + (if completed then 1 else 0)))
         \<and> (endDate d < now \<longrightarrow>
              (let s' = store_of (getActiveChallenges u now s)
               in map_option status (getChallengeById (c_id d) s') = Some EXPIRED
                  \<and> awards (c_id d) s' = awards (c_id d) s)
              \<and> ((case latestTransaction u s of None \<Rightarrow> True
                   | Some t \<Rightarrow> \<not> incremental_completes t now d
                               \<and> status (fst (progress_switch d t now)) \<noteq> FAILED)
                  \<longrightarrow> (let s' = store_of (updateChallengesWithNewData ai P u now s)
                       in map_option status (getChallengeById (c_id d) s') = Some EXPIRED
                          \<and> awards (c_id d) s' = awards (c_id d) s)))"
proof (intro conjI impI)
  let ?ts = "db_find (\<lambda>t. t_userId t = u) (transactions s)"
  let ?gs = "db_find (\<lambda>g. g_userId g = u) (savings_goals s)"
  let ?done = "isChallengeCompleted d (calculateProgress d ?ts ?gs now) now"
  assume at: "endDate d = now"
  have failed: "\<not> ?done \<Longrightarrow> isChallengeFailed d (calculateProgress d ?ts ?gs now) now"
    using at by (simp add: isChallengeFailed_def)
  have st: "status (batch_record ?ts ?gs now d) = (if ?done then COMPLETED else FAILED)"
    using failed by (simp add: batch_record_def merge_dto_def Let_def)
  show "let completed = ?done; s' = store_of (checkProgress u now s)
        in map_option status (getChallengeById (c_id d) s')
             = Some (if completed then COMPLETED else FAILED)
           \<and> awards (c_id d) s' = awards (c_id d) s + (if completed then 1 else 0)"
    using checkProgress_record[OF assms(1,2), of u now] assms(3,4) st
    by (simp add: Let_def)
next
  assume past: "endDate d < now"
  have "status (expire now d) = EXPIRED" using past by (simp add: expire_def merge_dto_def)
  then show "let s' = store_of (getActiveChallenges u now s)
        in map_option status (getChallengeById (c_id d) s') = Some EXPIRED
           \<and> awards (c_id d) s' = awards (c_id d) s"
    using getActiveChallenges_record[OF assms(1,2), of u now] assms(3,4)
    by (simp add: Let_def awards_def)
next
  assume past: "endDate d < now"
    and a: "case latestTransaction u s of None \<Rightarrow> True
            | Some t \<Rightarrow> \<not> incremental_completes t now d
                        \<and> status (fst (progress_switch d t now)) \<noteq> FAILED"
  have ex: "status (incremental_final (latestTransaction u s) now d) = EXPIRED"
    using incremental_final_expired[OF assms(4) past, of "latestTransaction u s"] a by simp
  have nc: "\<not> (case latestTransaction u s of None \<Rightarrow> False
                | Some t \<Rightarrow> incremental_completes t now d)"
    using a by (auto split: option.splits)
  show "let s' = store_of (updateChallengesWithNewData ai P u now s)
        in map_option status (getChallengeById (c_id d) s') = Some EXPIRED
           \<and> awards (c_id d) s' = awards (c_id d) s"
    using updateChallengesWithNewData_record[OF assms(1,2), of ai P u now] assms(3,4) ex nc
    by (simp add: Let_def)
qed

theorem overdue_challenge_outcome_witness:
  "wf_store ban_store
   \<and> base_challenge\<lparr>c_id := 1, rules := no_rules\<lparr>targetAmount := Some 200\<rparr>\<rparr>
       \<in> set (challenges ban_store)
   \<and> latestTransaction ''ana'' ban_store = None
   \<and> map_option status (getChallengeById 1
        (store_of (checkProgress ''ana'' (7 * day_ms) ban_store))) = Some FAILED
   \<and> map_option status (getChallengeById 1
        (store_of (getActiveChallenges ''ana'' (7 * day_ms + 1000) ban_store))) = Some EXPIRED
   \<and> map_option status (getChallengeById 1
        (store_of (updateChallengesWithNewData silent_model bogus_parser ''ana''
                     (7 * day_ms + 1000) ban_store))) = Some EXPIRED
   \<and> awards 1 (store_of (updateChallengesWithNewData silent_model bogus_parser ''ana''
                     (7 * day_ms + 1000) ban_store)) = 0"
proof -
  let ?d = "base_challenge\<lparr>c_id := 1, rules := no_rules\<lparr>targetAmount := Some 200\<rparr>\<rparr>"
  let ?at = "7 * day_ms"
  let ?now = "7 * day_ms + 1000"
  have h1: "wf_store ban_store" by code_simp
  have h2: "?d \<in> set (challenges ban_store)" by (simp add: ban_store_def)
  have h3: "c_userId ?d = ''ana''" by (simp add: base_challenge_def)
  have h4: "status ?d = ACTIVE" by (simp add: base_challenge_def)
  have h5: "endDate ?d = ?at" by (simp add: base_challenge_def)
  have h6: "endDate ?d < ?now" by (simp add: base_challenge_def)
  have l: "latestTransaction ''ana'' ban_store = None" by code_simp
  have nd: "\<not> isChallengeCompleted ?d
                 (calculateProgress ?d (db_find (\<lambda>t. t_userId t = ''ana'') (transactions ban_store))
                    (db_find (\<lambda>g. g_userId g = ''ana'') (savings_goals ban_store)) ?at) ?at"
    by code_simp
  have a0: "awards 1 ban_store = 0" by code_simp
  have cid: "c_id ?d = 1" by simp
  note t = overdue_challenge_outcome[OF h1 h2 h3 h4, where ai = silent_model
             and P = bogus_parser, unfolded cid Let_def]
  from t[of ?at] h5 nd have b: "map_option status (getChallengeById 1
        (store_of (checkProgress ''ana'' ?at ban_store))) = Some FAILED"
    by simp
  from t[of ?now] h6 have g: "map_option status (getChallengeById 1
        (store_of (getActiveChallenges ''ana'' ?now ban_store))) = Some EXPIRED"
    by simp
  from t[of ?now] h6 l a0 have i: "map_option status (getChallengeById 1
        (store_of (updateChallengesWithNewData silent_model bogus_parser ''ana''
                     ?now ban_store))) = Some EXPIRED
     \<and> awards 1 (store_of (updateChallengesWithNewData silent_model bogus_parser ''ana''
                     ?now ban_store)) = 0"
    by simp
  show ?thesis using h1 h2 l b g i by (intro conjI) simp_all
qed

subsection \<open>Population\<close>

lemma top_up_exact:
  assumes "wf_store s" and "length remaining < 3"
    and "ai (buildAIPrompt ((empty_input u)\<lparr>count := Some (3 - int (length remaining))\<rparr>) now s)
           = Some reply"
  shows "top_up ai P u now remaining s
           = Return (remaining
                      @ drafted (next_uuid s) u
                          (buildAIPrompt ((empty_input u)\<lparr>count := Some (3 - int (length remaining))\<rparr>) now s)
                          now (parseAIChallenges P now reply))
               (s\<lparr>challenges := challenges s
                      @ drafted (next_uuid s) u
                          (buildAIPrompt ((empty_input u)\<lparr>count := Some (3 - int (length remaining))\<rparr>) now s)
                          now (parseAIChallenges P now reply),
                  next_uuid := next_uuid s + length (parseAIChallenges P now reply)\<rparr>)"
proof -
  let ?input = "(empty_input u)\<lparr>count := Some (3 - int (length remaining))\<rparr>"
  let ?p = "buildAIPrompt ?input now s"
  have fresh: "list_all (\<lambda>c. c_id c < next_uuid s) (challenges s)"
    using assms(1) by (simp add: wf_store_def)
  have "generateChallenges ai P ?input now s
          = Return (drafted (next_uuid s) u ?p now (parseAIChallenges P now reply))
              (s\<lparr>challenges := challenges s
                     @ drafted (next_uuid s) u ?p now (parseAIChallenges P now reply),
                 next_uuid := next_uuid s + length (parseAIChallenges P now reply)\<rparr>)"
    using assms(3) insert_drafts_effect[OF fresh, where ds = "parseAIChallenges P now reply"
               and u = u and p = ?p and now = now and acc = "[]"]
    by (simp add: generateChallenges_def Let_def empty_input_def)
  then show ?thesis using assms(2) by (simp add: top_up_def)
qed

lemma buildAIPrompt_tables:
  "transactions s' = transactions s \<Longrightarrow> savings_goals s' = savings_goals s
     \<Longrightarrow> buildAIPrompt input now s' = buildAIPrompt input now s"
  by (simp add: buildAIPrompt_def Let_def cong: if_cong)

text \<open>
  With a transaction on record, the incremental pass ends in the top-up, run on the store
  its loop and second expiry left, with the active records found after the loop.
\<close>

lemma updateChallengesWithNewData_tail:
  assumes "wf_store s" and "latestTransaction u s = Some t"
  shows "\<exists>s3. updateChallengesWithNewData ai P u now s
           = top_up ai P u now
               (filter (\<lambda>c. c_userId c = u \<and> status c = ACTIVE)
                  (map (\<lambda>d. if c_userId d = u \<and> status d = ACTIVE
                             then incremental_record t now d else d) (challenges s))) s3
         \<and> challenges s3
             = map (\<lambda>d. if c_userId d = u \<and> status d = ACTIVE
                         then incremental_final (Some t) now d else d) (challenges s)
         \<and> transactions s3 = transactions s \<and> savings_goals s3 = savings_goals s
         \<and> wf_store s3"
proof -
  let ?Q = "\<lambda>c. c_userId c = u \<and> status c = ACTIVE"
  let ?tbl = "challenges s"
  let ?cs = "filter ?Q ?tbl"
  let ?s1 = "s\<lparr>challenges := map (\<lambda>d. if ?Q d then expire now d else d) ?tbl\<rparr>"
  have dist: "distinct (map c_id ?tbl)" and wfl: "wf_ledger s"
    using assms(1) by (simp_all add: wf_store_def)
  have ga: "getActiveChallenges u now s = Return ?cs ?s1"
    using dist by (rule getActiveChallenges_effect)
  have ids1: "map c_id (challenges ?s1) = map c_id ?tbl"
    by (simp add: map_if_ids del: map_map)
  have d1: "distinct (map c_id (challenges ?s1))" using dist by (simp only: ids1)
  have d2: "distinct (map c_id ?cs)" using dist by (rule distinct_map_filter)
  have sub: "\<forall>c\<in>set ?cs. expire now c \<in> set (challenges ?s1)" by auto
  have wf1: "wf_ledger ?s1" using wfl by simp
  from incremental_loop_effect[OF d1 d2 sub wf1, of t "[]"]
  obtain upd s2 where
    loop: "incremental_loop ?cs t now [] ?s1 = (upd, s2)"
    and tbl2: "challenges s2 = apply_local (incremental_record t now) ?cs (challenges ?s1)"
    and fr2: "transactions s2 = transactions ?s1" "savings_goals s2 = savings_goals ?s1"
      "wf_ledger s2" "next_uuid ?s1 \<le> next_uuid s2"
    by blast
  have tbl2': "challenges s2 = map (\<lambda>d. if ?Q d then incremental_record t now d else d) ?tbl"
    unfolding tbl2 using apply_local_after_expire[OF dist, of "expire now"] by simp
  have ids2: "map c_id (challenges s2) = map c_id ?tbl"
    unfolding tbl2' by (simp add: map_if_ids del: map_map)
  have dist2: "distinct (map c_id (challenges s2))" using dist by (simp only: ids2)
  let ?rem = "filter ?Q (challenges s2)"
  let ?s3 = "s2\<lparr>challenges := map (\<lambda>d. if ?Q d then expire now d else d) (challenges s2)\<rparr>"
  have ga2: "getActiveChallenges u now s2 = Return ?rem ?s3"
    using dist2 by (rule getActiveChallenges_effect)
  have tbl3: "challenges ?s3
                = map (\<lambda>d. if ?Q d then incremental_final (Some t) now d else d) ?tbl"
    by (simp add: tbl2' incremental_final_def expire_active_def cong: if_cong)
  have ids3: "map c_id (challenges ?s3) = map c_id ?tbl"
    using ids2 by (simp add: map_if_ids del: map_map)
  have wf3: "wf_store ?s3"
    using assms(1) ids3 fr2 by (intro wf_store_after[of s ?s3]) simp_all
  have out: "updateChallengesWithNewData ai P u now s = top_up ai P u now ?rem ?s3"
    using ga assms(2) loop ga2 by (simp add: updateChallengesWithNewData_def)
  define s3 where "s3 = ?s3"
  have rem: "?rem = filter ?Q (map (\<lambda>d. if ?Q d then incremental_record t now d else d) ?tbl)"
    by (simp only: tbl2')
  have a: "updateChallengesWithNewData ai P u now s
             = top_up ai P u now
                 (filter ?Q (map (\<lambda>d. if ?Q d then incremental_record t now d else d) ?tbl)) s3"
    using out unfolding rem s3_def .
  have b: "challenges s3 = map (\<lambda>d. if ?Q d then incremental_final (Some t) now d else d) ?tbl"
    using tbl3 unfolding s3_def .
  have c: "transactions s3 = transactions s" "savings_goals s3 = savings_goals s"
    using fr2 by (simp_all add: s3_def)
  have d: "wf_store s3" using wf3 unfolding s3_def .
  show ?thesis using a b c d by (intro exI[of _ s3] conjI)
qed


lemma filter_all: "list_all Q xs \<Longrightarrow> filter Q xs = xs"
  by (induction xs) auto

text \<open>
  C9, as stated, fails: a user with one active challenge, which the recorded expense does
  not touch, and a content model whose reply holds no array. The pass asks for 2
  challenges (the count in the stored prompt) and persists the 3 fallback templates, so
  the user has 4 active challenges afterwards.
\<close>

theorem one_active_gets_three_counterexample:
  "active_count ''ana'' expense_store = 1
   \<and> map (\<lambda>c. (c_id c, status c, map_option p_count (aiContext c)))
        (challenges (store_of
           (updateChallengesWithNewData silent_model bogus_parser ''ana'' 20 expense_store)))
       = [(0, ACTIVE, None), (1, ACTIVE, Some 2), (2, ACTIVE, Some 2), (3, ACTIVE, Some 2)]
   \<and> active_count ''ana'' (store_of
           (updateChallengesWithNewData silent_model bogus_parser ''ana'' 20 expense_store)) = 4"
  by code_simp

text \<open>
  C9, amended. Take an incremental pass for a user with a transaction on record, and let
  \<open>n\<close> be the number of the user's challenges that are active after the pass's loop.
  If \<open>n < 3\<close> and the content model answers, the prompt asks for exactly \<open>3 - n\<close>
  challenges, and the pass appends one new ACTIVE challenge of the user for every draft
  the parser returns for the reply, of the draft's type: three when the reply cannot be
  parsed. Nothing else is changed by this step, so the user's active count grows by the
  number of drafts.
\<close>

theorem top_up_after_incremental_pass:
  assumes "wf_store s" and "latestTransaction u s = Some t"
    and "n = length (filter (\<lambda>c. c_userId c = u \<and> status c = ACTIVE)
                  (map (\<lambda>d. if c_userId d = u \<and> status d = ACTIVE
                             then incremental_record t now d else d) (challenges s)))"
    and "n < 3"
    and "ai (buildAIPrompt ((empty_input u)\<lparr>count := Some (3 - int n)\<rparr>) now s) = Some reply"
  shows "p_count (buildAIPrompt ((empty_input u)\<lparr>count := Some (3 - int n)\<rparr>) now s) = 3 - int n
       \<and> (\<exists>new. challenges (store_of (updateChallengesWithNewData ai P u now s))
                   = map (\<lambda>d. if c_userId d = u \<and> status d = ACTIVE
                               then incremental_final (Some t) now d else d) (challenges s)
                     @ new
               \<and> map c_type new = map d_type (parseAIChallenges P now reply)
               \<and> list_all (\<lambda>c. status c = ACTIVE \<and> c_userId c = u) new
               \<and> (unparseable P reply \<longrightarrow> length new = 3)
               \<and> active_count u (store_of (updateChallengesWithNewData ai P u now s))
                   = length (filter (\<lambda>c. c_userId c = u \<and> status c = ACTIVE)
                       (map (\<lambda>d. if c_userId d = u \<and> status d = ACTIVE
                                  then incremental_final (Some t) now d else d) (challenges s)))
                     + length new)"
proof
  let ?input = "(empty_input u)\<lparr>count := Some (3 - int n)\<rparr>"
  show "p_count (buildAIPrompt ?input now s) = 3 - int n"
    using assms(4) by (simp add: buildAIPrompt_def default_to_def Let_def)
  let ?Q = "\<lambda>c. c_userId c = u \<and> status c = ACTIVE"
  let ?rem = "filter ?Q (map (\<lambda>d. if ?Q d then incremental_record t now d else d) (challenges s))"
  let ?f = "\<lambda>d. if ?Q d then incremental_final (Some t) now d else d"
  from updateChallengesWithNewData_tail[OF assms(1,2), of ai P now]
  obtain s3 where out: "updateChallengesWithNewData ai P u now s = top_up ai P u now ?rem s3"
    and tbl3: "challenges s3 = map ?f (challenges s)"
    and fr: "transactions s3 = transactions s" "savings_goals s3 = savings_goals s"
    and wf3: "wf_store s3"
    by blast
  have len: "length ?rem = n" using assms(3) by simp
  have pr: "buildAIPrompt ?input now s3 = buildAIPrompt ?input now s"
    using fr by (rule buildAIPrompt_tables)
  let ?new = "drafted (next_uuid s3) u (buildAIPrompt ?input now s) now (parseAIChallenges P now reply)"
  have "top_up ai P u now ?rem s3
          = Return (?rem @ ?new)
              (s3\<lparr>challenges := challenges s3 @ ?new,
                  next_uuid := next_uuid s3 + length (parseAIChallenges P now reply)\<rparr>)"
    using top_up_exact[OF wf3, of ?rem ai u now reply P] assms(4,5)
    unfolding len pr by simp
  then have tbl: "challenges (store_of (updateChallengesWithNewData ai P u now s))
                    = map ?f (challenges s) @ ?new"
    by (simp add: out tbl3)
  have types: "map c_type ?new = map d_type (parseAIChallenges P now reply)"
    by (rule drafted_types)
  have act: "list_all ?Q ?new"
    using drafted_active[of u "next_uuid s3" "buildAIPrompt ?input now s" now
            "parseAIChallenges P now reply"]
    by (simp add: list_all_iff)
  have act': "list_all (\<lambda>c. status c = ACTIVE \<and> c_userId c = u) ?new"
    using act by (simp add: list_all_iff)
  have three: "unparseable P reply \<longrightarrow> length ?new = 3"
  proof
    assume "unparseable P reply"
    then have "parseAIChallenges P now reply = generateFallbackChallenges now"
      by (rule parse_unparseable)
    then show "length ?new = 3"
      by (simp add: drafted_length generateFallbackChallenges_def Let_def)
  qed
  have cnt: "active_count u (store_of (updateChallengesWithNewData ai P u now s))
               = length (filter ?Q (map ?f (challenges s))) + length ?new"
    unfolding active_count_def db_find_def tbl
    by (simp add: filter_all[OF act])
  show "\<exists>new. challenges (store_of (updateChallengesWithNewData ai P u now s))
                   = map ?f (challenges s) @ new
               \<and> map c_type new = map d_type (parseAIChallenges P now reply)
               \<and> list_all (\<lambda>c. status c = ACTIVE \<and> c_userId c = u) new
               \<and> (unparseable P reply \<longrightarrow> length new = 3)
               \<and> active_count u (store_of (updateChallengesWithNewData ai P u now s))
                   = length (filter ?Q (map ?f (challenges s))) + length new"
    using tbl types act' three cnt by (intro exI[of _ ?new] conjI)
qed


theorem top_up_after_incremental_pass_witness:
  "wf_store expense_store
   \<and> latestTransaction ''ana'' expense_store
       = Some (base_transaction\<lparr>t_amount := 10, t_createdAt := 10\<rparr>)
   \<and> (1::nat) = length (filter (\<lambda>c. c_userId c = ''ana'' \<and> status c = ACTIVE)
                  (map (\<lambda>d. if c_userId d = ''ana'' \<and> status d = ACTIVE
                             then incremental_record
                                    (base_transaction\<lparr>t_amount := 10, t_createdAt := 10\<rparr>) 20 d
                             else d) (challenges expense_store)))
   \<and> p_count (buildAIPrompt ((empty_input ''ana'')\<lparr>count := Some (3 - int 1)\<rparr>) 20 expense_store) = 2
   \<and> unparseable bogus_parser ''Lo siento, no puedo ayudar''
   \<and> active_count ''ana''
        (store_of (updateChallengesWithNewData silent_model bogus_parser ''ana'' 20 expense_store))
       = 4"
proof -
  let ?t = "base_transaction\<lparr>t_amount := 10, t_createdAt := 10\<rparr>"
  let ?Q = "\<lambda>c. c_userId c = ''ana'' \<and> status c = ACTIVE"
  have h1: "wf_store expense_store" by code_simp
  have h2: "latestTransaction ''ana'' expense_store = Some ?t" by code_simp
  have h3: "(1::nat) = length (filter ?Q
                  (map (\<lambda>d. if ?Q d then incremental_record ?t 20 d else d)
                     (challenges expense_store)))"
    by code_simp
  have h4: "(1::nat) < 3" by simp
  have h5: "silent_model (buildAIPrompt ((empty_input ''ana'')\<lparr>count := Some (3 - int 1)\<rparr>) 20
              expense_store) = Some ''Lo siento, no puedo ayudar''"
    by (simp add: silent_model_def)
  have u: "unparseable bogus_parser ''Lo siento, no puedo ayudar''"
    by (simp add: unparseable_def match_array_def)
  have k: "length (filter ?Q
             (map (\<lambda>d. if ?Q d then incremental_final (Some ?t) 20 d else d)
                (challenges expense_store))) = 1"
    by code_simp
  from top_up_after_incremental_pass[where s = expense_store and u = "''ana''" and t = ?t
         and n = 1 and now = 20 and ai = silent_model
         and reply = "''Lo siento, no puedo ayudar''" and P = bogus_parser,
         OF h1 h2 h3 h4 h5] u k
  have "p_count (buildAIPrompt ((empty_input ''ana'')\<lparr>count := Some (3 - int 1)\<rparr>) 20 expense_store) = 2
        \<and> active_count ''ana''
        (store_of (updateChallengesWithNewData silent_model bogus_parser ''ana'' 20 expense_store))
       = 4"
    by auto
  then have c1: "p_count (buildAIPrompt ((empty_input ''ana'')\<lparr>count := Some (3 - int 1)\<rparr>) 20
                   expense_store) = 2"
    and c2: "active_count ''ana''
        (store_of (updateChallengesWithNewData silent_model bogus_parser ''ana'' 20 expense_store))
       = 4"
    by simp_all
  show ?thesis
    by (intro conjI) (rule h1, rule h2, rule h3, rule c1, rule u, rule c2)
qed

section \<open>The two evaluation paths\<close>

text \<open>
  C1, as stated, fails. For the SAVINGS challenge of target 200 and the two incomes 250
  and 100, both paths end COMPLETED, but the incremental path stops counting at the
  completing transaction and records no completion date, while the batch path counts the
  whole history: the progress differs. The incremental path also leaves the challenges
  its top-up generated.
\<close>

theorem incremental_differs_from_batch_counterexample:
  "map (\<lambda>c. (c_id c, status c, currentAmount (progress c), completedAt (progress c)))
     (challenges (run_events silent_model bogus_parser
                    (incremental_events two_incomes ''ana'' 30) savings_store))
   = [(0, COMPLETED, Some 250, None), (3, ACTIVE, Some 0, None), (4, ACTIVE, Some 100, None),
      (5, ACTIVE, Some 0, None)]
   \<and> map (\<lambda>c. (c_id c, status c, currentAmount (progress c), completedAt (progress c)))
     (challenges (run_events silent_model bogus_parser
                    (batch_events two_incomes ''ana'' 30) savings_store))
   = [(0, COMPLETED, Some 350, Some 30)]"
  by code_simp

subsection \<open>The newest transaction\<close>

lemma insort_keeps_head:
  "f t < f x \<Longrightarrow> insort_key f x (t # rest) = t # insort_key f x rest"
  for f :: "'a \<Rightarrow> int"
  by simp

lemma sort_keeps_head:
  fixes f :: "'a \<Rightarrow> int"
  assumes "\<forall>x\<in>set xs. f t < f x"
  shows "\<exists>rest. foldr (insort_key f) xs (t # r0) = t # rest"
  using assms
proof (induction xs)
  case Nil then show ?case by simp
next
  case (Cons x xs)
  then obtain rest where r: "foldr (insort_key f) xs (t # r0) = t # rest" by auto
  have "f t < f x" using Cons.prems by simp
  then show ?case by (simp add: r)
qed

lemma latest_of_increasing:
  assumes all: "db_find (\<lambda>x. t_userId x = u) (transactions s) = ts @ [t]"
    and "sorted_wrt (<) (map t_createdAt (ts @ [t]))"
  shows "latestTransaction u s = Some t"
proof -
  have older: "\<forall>x\<in>set ts. - t_createdAt t < - t_createdAt x"
    using assms(2) by (auto simp: sorted_wrt_append)
  have "sort_key (\<lambda>x. - t_createdAt x) (ts @ [t])
          = foldr (insort_key (\<lambda>x. - t_createdAt x)) ts [t]"
    by (simp add: sort_key_def)
  then obtain rest where "sort_key (\<lambda>x. - t_createdAt x) (ts @ [t]) = t # rest"
    using sort_keeps_head[OF older, of "[]"] by auto
  then show ?thesis by (simp add: latestTransaction_def all Let_def)
qed

lemma db_insert_absent:
  "key r \<notin> key ` set tbl \<Longrightarrow> db_insert key r tbl = tbl @ [r]"
  by (simp add: db_insert_def find_absent_key)

lemma record_fresh_transactions:
  assumes "distinct (map t_id (transactions s @ ts))"
  shows "run_events ai P (map RecordTransaction ts) s = s\<lparr>transactions := transactions s @ ts\<rparr>"
  using assms
proof (induction ts arbitrary: s)
  case Nil then show ?case by simp
next
  case (Cons t ts)
  have fresh: "t_id t \<notin> t_id ` set (transactions s)" using Cons.prems by auto
  let ?s1 = "s\<lparr>transactions := transactions s @ [t]\<rparr>"
  have "distinct (map t_id (transactions ?s1 @ ts))" using Cons.prems by simp
  from Cons.IH[OF this] show ?case
    by (simp add: db_insert_absent[OF fresh])
qed

lemma sum_amounts_sum_list: "sum_amounts ts = sum_list (map t_amount ts)"
proof -
  have "foldl (\<lambda>sum t. sum + t_amount t) a ts = a + sum_list (map t_amount ts)" for a
    by (induction ts arbitrary: a) simp_all
  then show ?thesis by (simp add: sum_amounts_def)
qed


subsection \<open>One challenge along a history\<close>

lemma incremental_final_plain:
  assumes "plain_amount_challenge d" and "status d = ACTIVE" and "\<not> endDate d < now"
    and "0 \<le> t_amount t"
  shows "c_id (incremental_final (Some t) now d) = c_id d
       \<and> c_userId (incremental_final (Some t) now d) = c_userId d
       \<and> c_type (incremental_final (Some t) now d) = c_type d
       \<and> rules (incremental_final (Some t) now d) = rules d
       \<and> endDate (incremental_final (Some t) now d) = endDate d
       \<and> (if counted d t then
             (if limit_reached d (or0 (currentAmount (progress d)) + t_amount t)
              then status (incremental_final (Some t) now d) = reached_status d
              else status (incremental_final (Some t) now d) = ACTIVE
                   \<and> or0 (currentAmount (progress (incremental_final (Some t) now d)))
                       = or0 (currentAmount (progress d)) + t_amount t)
           else incremental_final (Some t) now d = d)"
proof (cases "c_type d = SAVINGS")
  case True
  then show ?thesis
    using assms(2,3,4)
    by (cases "t_type t")
       (simp_all add: incremental_final_def incremental_record_def progress_switch_def
          expire_active_def expire_def counted_def limit_reached_def reached_status_def
          type_defs Let_def or0_def)
next
  case False
  then have sl: "c_type d = SPENDING_LIMIT" and cat: "category (rules d) = None"
    using assms(1) by (auto simp: plain_amount_challenge_def)
  show ?thesis
    using sl cat assms(2,3,4)
    by (cases "t_type t")
       (simp_all add: incremental_final_def incremental_record_def progress_switch_def
          expire_active_def expire_def counted_def limit_reached_def reached_status_def
          type_defs Let_def or0_def)
qed

lemma limit_reached_mono:
  "limit_reached d a \<Longrightarrow> a \<le> b \<Longrightarrow> limit_reached d b"
  by (auto simp: limit_reached_def)

lemma limit_reached_cong:
  "c_type d' = c_type d \<Longrightarrow> rules d' = rules d \<Longrightarrow> limit_reached d' = limit_reached d"
  by (auto simp: limit_reached_def fun_eq_iff)

lemma counted_cong: "c_type d' = c_type d \<Longrightarrow> counted d' = counted d"
  by (auto simp: counted_def fun_eq_iff)

lemma counted_total_nonneg:
  "list_all (\<lambda>t. 0 \<le> t_amount t) ts \<Longrightarrow> 0 \<le> counted_total d ts"
  by (induction ts) (simp_all add: counted_total_def)

text \<open>
  The stored record after the incremental run over a history that continues the
  transactions on record: settled as soon as the running total settles it.
\<close>

lemma incremental_run_plain:
  assumes "wf_store s" and "d \<in> set (challenges s)" and "c_userId d = u"
    and "plain_amount_challenge d" and "now < endDate d"
    and "list_all (\<lambda>t. t_userId t = u) ts"
    and "sorted_wrt (<) (map t_createdAt (db_find (\<lambda>t. t_userId t = u) (transactions s) @ ts))"
    and "distinct (map t_id (transactions s @ ts))"
    and "list_all (\<lambda>t. 0 \<le> t_amount t) ts"
    and "status d = reached_status d
         \<or> (status d = ACTIVE \<and> \<not> limit_reached d (or0 (currentAmount (progress d))))"
  shows "\<exists>d'. getChallengeById (c_id d) (run_events ai P (incremental_events ts u now) s) = Some d'
           \<and> (if status d = reached_status d
                  \<or> limit_reached d (or0 (currentAmount (progress d)) + counted_total d ts)
               then status d' = reached_status d
               else status d' = ACTIVE
                    \<and> or0 (currentAmount (progress d'))
                        = or0 (currentAmount (progress d)) + counted_total d ts)"
  using assms
proof (induction ts arbitrary: s d)
  case Nil
  have "getChallengeById (c_id d) s = Some d" using Nil.prems(1,2) by (rule lookup_member)
  moreover have "reached_status d \<noteq> ACTIVE" by (simp add: reached_status_def)
  ultimately show ?case using Nil.prems(10) by (auto simp: counted_total_def)
next
  case (Cons t ts)
  let ?a = "or0 (currentAmount (progress d))"
  let ?s1 = "s\<lparr>transactions := transactions s @ [t]\<rparr>"
  let ?s2 = "store_of (updateChallengesWithNewData ai P u now ?s1)"
  let ?d2 = "if status d = ACTIVE then incremental_final (Some t) now d else d"
  have fresh: "t_id t \<notin> t_id ` set (transactions s)" using Cons.prems(8) by auto
  have rec: "run_event ai P (RecordTransaction t) s = ?s1"
    by (simp add: db_insert_absent[OF fresh])
  have wf1: "wf_store ?s1" using Cons.prems(1) by simp
  have d1: "d \<in> set (challenges ?s1)" using Cons.prems(2) by simp
  have mine: "db_find (\<lambda>x. t_userId x = u) (transactions s @ [t])
                = db_find (\<lambda>x. t_userId x = u) (transactions s) @ [t]"
    using Cons.prems(6) by (simp add: db_find_def)
  have latest: "latestTransaction u ?s1 = Some t"
  proof (rule latest_of_increasing)
    show "db_find (\<lambda>x. t_userId x = u) (transactions ?s1)
            = db_find (\<lambda>x. t_userId x = u) (transactions s) @ [t]"
      using mine by simp
    show "sorted_wrt (<) (map t_createdAt (db_find (\<lambda>x. t_userId x = u) (transactions s) @ [t]))"
      using Cons.prems(7) by (simp add: sorted_wrt_append)
  qed
  have look: "getChallengeById (c_id d) ?s2 = Some ?d2"
    using updateChallengesWithNewData_record(1)[OF wf1 d1, of ai P u now] Cons.prems(3) latest
    by simp
  from updateChallengesWithNewData_effect[OF wf1, of ai P u now]
  have wf2: "wf_store ?s2" and tr2: "transactions ?s2 = transactions s @ [t]"
    by auto
  have mem2: "?d2 \<in> set (challenges ?s2)"
    using look by (auto simp: getChallengeById_def db_findOne_def dest: find_in_set)
  have amt: "0 \<le> t_amount t" using Cons.prems(9) by simp
  have rs: "reached_status d \<noteq> ACTIVE" by (simp add: reached_status_def)
  have nexp: "\<not> endDate d < now" using Cons.prems(5) by simp
  have same: "c_id ?d2 = c_id d \<and> c_userId ?d2 = c_userId d \<and> c_type ?d2 = c_type d
              \<and> rules ?d2 = rules d \<and> endDate ?d2 = endDate d"
    using incremental_final_plain[OF Cons.prems(4) _ nexp amt] by simp
  have step: "if status d = reached_status d
                 \<or> limit_reached d (?a + counted_total d [t])
              then status ?d2 = reached_status d
              else status ?d2 = ACTIVE
                   \<and> or0 (currentAmount (progress ?d2)) = ?a + counted_total d [t]"
  proof (cases "status d = ACTIVE")
    case False
    then show ?thesis using Cons.prems(10) by simp
  next
    case True
    then have nr: "\<not> limit_reached d ?a" using Cons.prems(10) rs by auto
    show ?thesis
      using incremental_final_plain[OF Cons.prems(4) True nexp amt] True rs nr
      by (auto simp: counted_total_def)
  qed
  have ty: "c_type ?d2 = c_type d" "rules ?d2 = rules d" using same by simp_all
  have cnt: "counted ?d2 = counted d" using ty(1) by (rule counted_cong)
  have types: "reached_status ?d2 = reached_status d" "limit_reached ?d2 = limit_reached d"
    "counted_total ?d2 = counted_total d" "plain_amount_challenge ?d2"
  proof -
    show "reached_status ?d2 = reached_status d" by (simp only: reached_status_def ty)
    show "limit_reached ?d2 = limit_reached d" using ty by (rule limit_reached_cong)
    show "counted_total ?d2 = counted_total d"
      by (rule ext) (simp only: counted_total_def cnt)
    show "plain_amount_challenge ?d2"
      using Cons.prems(4) by (simp only: plain_amount_challenge_def ty)
  qed
  have inv2: "status ?d2 = reached_status ?d2
         \<or> (status ?d2 = ACTIVE \<and> \<not> limit_reached ?d2 (or0 (currentAmount (progress ?d2))))"
    using step unfolding types by (auto split: if_splits)
  have ih: "\<exists>d'. getChallengeById (c_id ?d2)
                    (run_events ai P (incremental_events ts u now) ?s2) = Some d'
           \<and> (if status ?d2 = reached_status ?d2
                  \<or> limit_reached ?d2 (or0 (currentAmount (progress ?d2)) + counted_total ?d2 ts)
               then status d' = reached_status ?d2
               else status d' = ACTIVE
                    \<and> or0 (currentAmount (progress d'))
                        = or0 (currentAmount (progress ?d2)) + counted_total ?d2 ts)"
  proof (rule Cons.IH[OF wf2 mem2 _ types(4) _ _ _ _ _ inv2])
    show "c_userId ?d2 = u" using same Cons.prems(3) by simp
    show "now < endDate ?d2" using same Cons.prems(5) by simp
    show "list_all (\<lambda>t. t_userId t = u) ts"
      using Cons.prems(6) by simp
    show "sorted_wrt (<) (map t_createdAt (db_find (\<lambda>t. t_userId t = u) (transactions ?s2) @ ts))"
      using Cons.prems(7) by (simp add: tr2 mine)
    show "distinct (map t_id (transactions ?s2 @ ts))"
      using Cons.prems(8) by (simp add: tr2)
    show "list_all (\<lambda>t. 0 \<le> t_amount t) ts" using Cons.prems(9) by simp
  qed
  have run: "run_events ai P (incremental_events (t # ts) u now) s
               = run_events ai P (incremental_events ts u now) ?s2"
    using rec by simp
  have tot: "counted_total d (t # ts) = counted_total d [t] + counted_total d ts"
    by (simp add: counted_total_def)
  have nn: "0 \<le> counted_total d ts"
    using Cons.prems(9) by (intro counted_total_nonneg) simp
  have cid: "c_id ?d2 = c_id d" using same by simp
  from ih obtain d' where
    g: "getChallengeById (c_id d) (run_events ai P (incremental_events ts u now) ?s2) = Some d'"
    and r: "if status ?d2 = reached_status d
                  \<or> limit_reached d (or0 (currentAmount (progress ?d2)) + counted_total d ts)
               then status d' = reached_status d
               else status d' = ACTIVE
                    \<and> or0 (currentAmount (progress d'))
                        = or0 (currentAmount (progress ?d2)) + counted_total d ts"
    unfolding types cid by blast
  have "if status d = reached_status d \<or> limit_reached d (?a + counted_total d (t # ts))
        then status d' = reached_status d
        else status d' = ACTIVE
             \<and> or0 (currentAmount (progress d')) = ?a + counted_total d (t # ts)"
  proof (cases "status d = reached_status d \<or> limit_reached d (?a + counted_total d [t])")
    case True
    then have "status ?d2 = reached_status d" using step by simp
    moreover have "status d = reached_status d \<or> limit_reached d (?a + counted_total d (t # ts))"
      using True nn limit_reached_mono[of d "?a + counted_total d [t]"
                      "?a + counted_total d (t # ts)"]
      by (auto simp: tot)
    ultimately show ?thesis using r by simp
  next
    case False
    then have st: "status ?d2 = ACTIVE"
      and a2: "or0 (currentAmount (progress ?d2)) = ?a + counted_total d [t]"
      using step by simp_all
    have "status d \<noteq> reached_status d" using False by simp
    then show ?thesis using r st a2 rs by (simp add: tot add.assoc)
  qed
  then show ?case using g unfolding run by blast
qed


lemma run_events_append:
  "run_events ai P (es @ es') s = run_events ai P es' (run_events ai P es s)"
  by (induction es arbitrary: s) simp_all

lemma batch_record_plain:
  assumes "plain_amount_challenge d" and "status d = ACTIVE" and "now < endDate d"
    and "list_all (\<lambda>t. startDate d \<le> t_createdAt t) ts"
  shows "status (batch_record ts gs now d)
           = (if limit_reached d (counted_total d ts) then reached_status d else ACTIVE)
       \<and> currentAmount (progress (batch_record ts gs now d)) = Some (counted_total d ts)"
proof -
  have rel: "filter (\<lambda>t. startDate d \<le> t_createdAt t) ts = ts"
    using assms(4) by (rule filter_all)
  have nexp: "\<not> endDate d < now" "\<not> endDate d \<le> now" using assms(3) by simp_all
  show ?thesis
  proof (cases "c_type d = SAVINGS")
    case True
    have cnt: "counted d = (\<lambda>t. t_type t = income)"
      using True by (simp add: counted_def fun_eq_iff)
    have p: "currentAmount (calculateProgress d ts gs now) = Some (counted_total d ts)"
      using True by (simp add: calculateProgress_def Let_def rel counted_total_def cnt
                        sum_amounts_sum_list)
    have c: "isChallengeCompleted d (calculateProgress d ts gs now) now
               = limit_reached d (counted_total d ts)"
      using True by (simp add: isChallengeCompleted_def p limit_reached_def or0_def)
    have f: "\<not> isChallengeFailed d (calculateProgress d ts gs now) now"
      using True nexp by (simp add: isChallengeFailed_def type_defs)
    show ?thesis
      using c f p assms(2) nexp True
      by (simp add: batch_record_def Let_def merge_dto_def expire_def reached_status_def)
  next
    case False
    then have sl: "c_type d = SPENDING_LIMIT"
      using assms(1) by (auto simp: plain_amount_challenge_def)
    have cnt: "counted d = (\<lambda>t. t_type t = expense)"
      using False by (simp add: counted_def fun_eq_iff)
    have p: "currentAmount (calculateProgress d ts gs now) = Some (counted_total d ts)"
      using sl False by (simp add: calculateProgress_def Let_def rel counted_total_def cnt
                        sum_amounts_sum_list)
    have c: "\<not> isChallengeCompleted d (calculateProgress d ts gs now) now"
      using sl False nexp by (simp add: isChallengeCompleted_def)
    have f: "isChallengeFailed d (calculateProgress d ts gs now) now
               = limit_reached d (counted_total d ts)"
      using sl False nexp by (simp add: isChallengeFailed_def p limit_reached_def or0_def)
    show ?thesis
      using c f p assms(2) nexp False
      by (simp add: batch_record_def Let_def merge_dto_def expire_def reached_status_def)
  qed
qed

text \<open>
  C1, amended. Take a SAVINGS challenge, or a SPENDING_LIMIT challenge without a
  category, that is active with no amount counted yet and not settled by the amount 0;
  a store with no transaction of the user on record (other users may have some); a
  history of the user's transactions, under ids not yet on record, with non-negative
  amounts, created in strictly increasing order at or after the start date; and one
  evaluation instant before the end date. Recording the history with an
  incremental pass after each transaction, and recording it with one batch pass at the
  end, leave the challenge with the same status: COMPLETED (SAVINGS) or FAILED
  (SPENDING_LIMIT) when the total of the counted amounts settles it, ACTIVE otherwise; and
  while it is ACTIVE both paths hold the same current amount.
\<close>

theorem incremental_agrees_with_batch:
  assumes "wf_store s" and "list_all (\<lambda>t. t_userId t \<noteq> u) (transactions s)"
    and "d \<in> set (challenges s)" and "c_userId d = u" and "status d = ACTIVE"
    and "plain_amount_challenge d"
    and "or0 (currentAmount (progress d)) = 0" and "\<not> limit_reached d 0"
    and "now < endDate d"
    and "list_all (\<lambda>t. t_userId t = u \<and> 0 \<le> t_amount t \<and> startDate d \<le> t_createdAt t) ts"
    and "sorted_wrt (<) (map t_createdAt ts)" and "distinct (map t_id (transactions s @ ts))"
  shows "\<exists>di db.
           getChallengeById (c_id d) (run_events ai P (incremental_events ts u now) s) = Some di
         \<and> getChallengeById (c_id d) (run_events ai P (batch_events ts u now) s) = Some db
         \<and> status di = status db
         \<and> status db = (if limit_reached d (counted_total d ts) then reached_status d else ACTIVE)
         \<and> (status db = ACTIVE \<longrightarrow>
               or0 (currentAmount (progress di)) = counted_total d ts
               \<and> currentAmount (progress db) = Some (counted_total d ts))"
proof -
  have users: "list_all (\<lambda>t. t_userId t = u) ts" and amounts: "list_all (\<lambda>t. 0 \<le> t_amount t) ts"
    and window: "list_all (\<lambda>t. startDate d \<le> t_createdAt t) ts"
    using assms(10) by (simp_all add: list_all_iff)
  have rs: "reached_status d \<noteq> ACTIVE" by (simp add: reached_status_def)
  have none: "db_find (\<lambda>t. t_userId t = u) (transactions s) = []"
    using assms(2) by (simp add: db_find_def list_all_iff)
  from incremental_run_plain[OF assms(1,3,4,6,9), of ts ai P]
  obtain di where
    gi: "getChallengeById (c_id d) (run_events ai P (incremental_events ts u now) s) = Some di"
    and ri: "if limit_reached d (counted_total d ts) then status di = reached_status d
             else status di = ACTIVE \<and> or0 (currentAmount (progress di)) = counted_total d ts"
    using users amounts none assms(5,7,8,11,12) rs by auto
  let ?sb = "s\<lparr>transactions := transactions s @ ts\<rparr>"
  let ?gs = "db_find (\<lambda>g. g_userId g = u) (savings_goals s)"
  have "run_events ai P (map RecordTransaction ts) s = ?sb"
    using record_fresh_transactions[of s ts ai P] assms(12) by simp
  then have run: "run_events ai P (batch_events ts u now) s = store_of (checkProgress u now ?sb)"
    by (simp add: batch_events_def run_events_append)
  have wfb: "wf_store ?sb" using assms(1) by simp
  have db_in: "d \<in> set (challenges ?sb)" using assms(3) by simp
  have mine: "db_find (\<lambda>t. t_userId t = u) (transactions s @ ts) = ts"
    using users none by (simp add: db_find_def filter_all)
  let ?db = "batch_record ts ?gs now d"
  have gb: "getChallengeById (c_id d) (run_events ai P (batch_events ts u now) s) = Some ?db"
    using checkProgress_record(1)[OF wfb db_in, of u now] assms(4,5)
    by (simp add: run mine)
  have rb: "status ?db = (if limit_reached d (counted_total d ts) then reached_status d else ACTIVE)"
    "currentAmount (progress ?db) = Some (counted_total d ts)"
    using batch_record_plain[OF assms(6,5,9) window, of ?gs] by simp_all
  show ?thesis
    using gi gb ri rb rs
    by (intro exI[of _ di] exI[of _ ?db]) (auto split: if_splits)
qed


theorem incremental_agrees_with_batch_witness:
  "wf_store shared_store
   \<and> list_all (\<lambda>t. t_userId t \<noteq> ''ana'') (transactions shared_store)
   \<and> transactions shared_store \<noteq> []
   \<and> plain_amount_challenge (base_challenge\<lparr>rules := no_rules\<lparr>targetAmount := Some 200\<rparr>\<rparr>)
   \<and> \<not> limit_reached (base_challenge\<lparr>rules := no_rules\<lparr>targetAmount := Some 200\<rparr>\<rparr>) 0
   \<and> list_all (\<lambda>t. t_userId t = ''ana'' \<and> 0 \<le> t_amount t
                     \<and> startDate (base_challenge\<lparr>rules := no_rules\<lparr>targetAmount := Some 200\<rparr>\<rparr>)
                          \<le> t_createdAt t) two_incomes
   \<and> sorted_wrt (<) (map t_createdAt two_incomes)
   \<and> distinct (map t_id (transactions shared_store @ two_incomes))
   \<and> (\<exists>di db.
         getChallengeById 0 (run_events silent_model bogus_parser
                               (incremental_events two_incomes ''ana'' 30) shared_store) = Some di
       \<and> getChallengeById 0 (run_events silent_model bogus_parser
                               (batch_events two_incomes ''ana'' 30) shared_store) = Some db
       \<and> status di = status db \<and> status db = COMPLETED)"
proof -
  let ?d = "base_challenge\<lparr>rules := no_rules\<lparr>targetAmount := Some 200\<rparr>\<rparr>"
  have h1: "wf_store shared_store" by code_simp
  have h2: "list_all (\<lambda>t. t_userId t \<noteq> ''ana'') (transactions shared_store)"
    by (simp add: shared_store_def base_transaction_def)
  have h2': "transactions shared_store \<noteq> []" by (simp add: shared_store_def)
  have h3: "?d \<in> set (challenges shared_store)"
    by (simp add: shared_store_def savings_store_def)
  have h4: "c_userId ?d = ''ana''" by (simp add: base_challenge_def)
  have h5: "status ?d = ACTIVE" by (simp add: base_challenge_def)
  have h6: "plain_amount_challenge ?d"
    by (simp add: plain_amount_challenge_def base_challenge_def)
  have h7: "or0 (currentAmount (progress ?d)) = 0"
    by (simp add: base_challenge_def no_progress_def or0_def)
  have h8: "\<not> limit_reached ?d 0"
    by (simp add: limit_reached_def base_challenge_def no_rules_def or0_def)
  have h9: "30 < endDate ?d" by (simp add: base_challenge_def day_ms_def)
  have h10: "list_all (\<lambda>t. t_userId t = ''ana'' \<and> 0 \<le> t_amount t
                          \<and> startDate ?d \<le> t_createdAt t) two_incomes"
    by (simp add: two_incomes_def base_transaction_def base_challenge_def)
  have h11: "sorted_wrt (<) (map t_createdAt two_incomes)"
    by (simp add: two_incomes_def)
  have h12: "distinct (map t_id (transactions shared_store @ two_incomes))"
    by (simp add: shared_store_def two_incomes_def base_transaction_def)
  have cid: "c_id ?d = 0" by (simp add: base_challenge_def)
  have reached: "limit_reached ?d (counted_total ?d two_incomes)"
    by (simp add: limit_reached_def counted_total_def counted_def two_incomes_def
          base_challenge_def no_rules_def or0_def)
  have rs: "reached_status ?d = COMPLETED"
    by (simp add: reached_status_def base_challenge_def)
  from incremental_agrees_with_batch[OF h1 h2 h3 h4 h5 h6 h7 h8 h9 h10 h11 h12,
         of silent_model bogus_parser]
  have both: "\<exists>di db.
         getChallengeById 0 (run_events silent_model bogus_parser
                               (incremental_events two_incomes ''ana'' 30) shared_store) = Some di
       \<and> getChallengeById 0 (run_events silent_model bogus_parser
                               (batch_events two_incomes ''ana'' 30) shared_store) = Some db
       \<and> status di = status db \<and> status db = COMPLETED"
    unfolding cid using reached rs by auto
  show ?thesis
    by (intro conjI) (rule h1, rule h2, rule h2', rule h6, rule h8, rule h10, rule h11, rule h12, rule both)
qed

section \<open>Passes that overlap\<close>

lemma checkProgress_loop_turn:
  "checkProgress_loop (c # rest) ts gs now upd s
     = (case checkProgress_loop [c] ts gs now upd s of
          Thrown e s1 \<Rightarrow> Thrown e s1
        | Return upd' s1 \<Rightarrow> checkProgress_loop rest ts gs now upd' s1)"
  by (simp add: Let_def split: outcome.splits)

lemma incremental_loop_turn:
  "incremental_loop (c # rest) l now upd s
     = (case incremental_loop [c] l now upd s of
          (upd', s1) \<Rightarrow> incremental_loop rest l now upd' s1)"
  by (simp split: prod.splits option.splits)

text \<open>
  A pass that is resumed with nothing in between is the pass of the sequential reading:
  some number of steps ends it, in the store that the call run in one piece leaves.
\<close>

lemma checkProgress_loop_alone:
  "\<exists>n. run_actions ai P (replicate n (Resume 0)) (s, [CheckProgressLoop cs ts gs now upd])
         = (store_of (checkProgress_loop cs ts gs now upd s), [])"
proof (induction cs arbitrary: s upd)
  case Nil
  have "run_actions ai P (replicate 1 (Resume 0)) (s, [CheckProgressLoop [] ts gs now upd])
          = (store_of (checkProgress_loop [] ts gs now upd s), [])"
    by simp
  then show ?case by blast
next
  case (Cons c rest)
  show ?case
  proof (cases "checkProgress_loop [c] ts gs now upd s")
    case (Thrown e s1)
    have "run_actions ai P (replicate 1 (Resume 0)) (s, [CheckProgressLoop (c # rest) ts gs now upd])
            = (store_of (checkProgress_loop (c # rest) ts gs now upd s), [])"
      unfolding checkProgress_loop_turn[of c rest] using Thrown by simp
    then show ?thesis by blast
  next
    case (Return upd' s1)
    from Cons.IH[of s1 upd'] obtain n where
      n: "run_actions ai P (replicate n (Resume 0)) (s1, [CheckProgressLoop rest ts gs now upd'])
            = (store_of (checkProgress_loop rest ts gs now upd' s1), [])"
      by blast
    have "run_actions ai P (replicate (Suc n) (Resume 0))
             (s, [CheckProgressLoop (c # rest) ts gs now upd])
            = (store_of (checkProgress_loop (c # rest) ts gs now upd s), [])"
      unfolding checkProgress_loop_turn[of c rest] using Return n by simp
    then show ?thesis by blast
  qed
qed

lemma checkProgress_alone:
  "\<exists>n. run_actions ai P (replicate n (Resume 0)) (s, [CheckProgressCalled u now])
         = (run_event ai P (CheckProgress u now) s, [])"
proof (cases "getActiveChallenges u now s")
  case (Thrown e s1)
  have "run_actions ai P (replicate 1 (Resume 0)) (s, [CheckProgressCalled u now])
          = (run_event ai P (CheckProgress u now) s, [])"
    using Thrown by (simp add: checkProgress_def)
  then show ?thesis by blast
next
  case (Return cs s1)
  let ?ts = "db_find (\<lambda>t. t_userId t = u) (transactions s1)"
  let ?gs = "db_find (\<lambda>g. g_userId g = u) (savings_goals s1)"
  from checkProgress_loop_alone[of ai P s1 cs ?ts ?gs now "[]"] obtain n where
    n: "run_actions ai P (replicate n (Resume 0)) (s1, [CheckProgressLoop cs ?ts ?gs now []])
          = (store_of (checkProgress_loop cs ?ts ?gs now [] s1), [])"
    by blast
  have "run_actions ai P (replicate (Suc n) (Resume 0)) (s, [CheckProgressCalled u now])
          = (run_event ai P (CheckProgress u now) s, [])"
    using Return n by (simp add: checkProgress_def Let_def)
  then show ?thesis by blast
qed

lemma incremental_loop_alone:
  "\<exists>n. run_actions ai P (replicate n (Resume 0)) (s, [UpdateLoop u now cs l upd])
         = (case incremental_loop cs l now upd s of
              (upd', s2) \<Rightarrow>
                (case getActiveChallenges u now s2 of
                   Thrown e s3 \<Rightarrow> (s3, [])
                 | Return remainingActive s3 \<Rightarrow>
                     (store_of (top_up ai P u now remainingActive s3), [])))"
proof (induction cs arbitrary: s upd)
  case Nil
  have "run_actions ai P (replicate 1 (Resume 0)) (s, [UpdateLoop u now [] l upd])
         = (case incremental_loop [] l now upd s of
              (upd', s2) \<Rightarrow>
                (case getActiveChallenges u now s2 of
                   Thrown e s3 \<Rightarrow> (s3, [])
                 | Return remainingActive s3 \<Rightarrow>
                     (store_of (top_up ai P u now remainingActive s3), [])))"
    by (simp split: outcome.splits)
  then show ?case by blast
next
  case (Cons c rest)
  obtain upd' s1 where turn: "incremental_loop [c] l now upd s = (upd', s1)"
    by (cases "incremental_loop [c] l now upd s") auto
  from Cons.IH[of s1 upd'] obtain n where
    n: "run_actions ai P (replicate n (Resume 0)) (s1, [UpdateLoop u now rest l upd'])
         = (case incremental_loop rest l now upd' s1 of
              (upd'', s2) \<Rightarrow>
                (case getActiveChallenges u now s2 of
                   Thrown e s3 \<Rightarrow> (s3, [])
                 | Return remainingActive s3 \<Rightarrow>
                     (store_of (top_up ai P u now remainingActive s3), [])))"
    by blast
  have "run_actions ai P (replicate (Suc n) (Resume 0)) (s, [UpdateLoop u now (c # rest) l upd])
         = (case incremental_loop (c # rest) l now upd s of
              (upd', s2) \<Rightarrow>
                (case getActiveChallenges u now s2 of
                   Thrown e s3 \<Rightarrow> (s3, [])
                 | Return remainingActive s3 \<Rightarrow>
                     (store_of (top_up ai P u now remainingActive s3), [])))"
    unfolding incremental_loop_turn[of c rest] using turn n by simp
  then show ?case by blast
qed

lemma updateChallengesWithNewData_alone:
  "\<exists>n. run_actions ai P (replicate n (Resume 0)) (s, [UpdateCalled u now])
         = (run_event ai P (UpdateChallengesWithNewData u now) s, [])"
proof (cases "getActiveChallenges u now s")
  case (Thrown e s1)
  have "run_actions ai P (replicate 1 (Resume 0)) (s, [UpdateCalled u now])
          = (run_event ai P (UpdateChallengesWithNewData u now) s, [])"
    using Thrown by (simp add: updateChallengesWithNewData_def)
  then show ?thesis by blast
next
  case (Return cs s1)
  show ?thesis
  proof (cases "latestTransaction u s1")
    case None
    have "run_actions ai P (replicate 1 (Resume 0)) (s, [UpdateCalled u now])
            = (run_event ai P (UpdateChallengesWithNewData u now) s, [])"
      using Return None by (simp add: updateChallengesWithNewData_def)
    then show ?thesis by blast
  next
    case (Some l)
    from incremental_loop_alone[of ai P s1 u now cs l "[]"] obtain n where
      n: "run_actions ai P (replicate n (Resume 0)) (s1, [UpdateLoop u now cs l []])
         = (case incremental_loop cs l now [] s1 of
              (upd', s2) \<Rightarrow>
                (case getActiveChallenges u now s2 of
                   Thrown e s3 \<Rightarrow> (s3, [])
                 | Return remainingActive s3 \<Rightarrow>
                     (store_of (top_up ai P u now remainingActive s3), [])))"
      by blast
    have "run_actions ai P (replicate (Suc n) (Resume 0)) (s, [UpdateCalled u now])
            = (run_event ai P (UpdateChallengesWithNewData u now) s, [])"
      using Return Some n
      by (simp add: updateChallengesWithNewData_def Let_def split: prod.splits outcome.splits)
    then show ?thesis by blast
  qed
qed

lemma createTransaction_alone:
  "\<exists>n. run_actions ai P (CreateTransaction t now # replicate n (Resume 0)) (s, [])
         = (run_events ai P [RecordTransaction t, UpdateChallengesWithNewData (t_userId t) now] s,
            [])"
proof -
  let ?s1 = "s\<lparr>transactions := db_insert t_id t (transactions s)\<rparr>"
  from updateChallengesWithNewData_alone[of ai P ?s1 "t_userId t" now] obtain n where
    "run_actions ai P (replicate n (Resume 0)) (?s1, [UpdateCalled (t_userId t) now])
       = (run_event ai P (UpdateChallengesWithNewData (t_userId t) now) ?s1, [])"
    by blast
  then have "run_actions ai P (CreateTransaction t now # replicate n (Resume 0)) (s, [])
         = (run_events ai P [RecordTransaction t, UpdateChallengesWithNewData (t_userId t) now] s,
            [])"
    by simp
  then show ?thesis by blast
qed

text \<open>
  C2: the code departs from the claim when two passes overlap. On \<open>savings_store\<close>
  (one ACTIVE SAVINGS challenge of target 200) an income of 250 is created and a call of
  \<open>checkProgress\<close> arrives. When each pass ends before the next call arrives, one
  reward is logged for the challenge. When the two passes take turns, both fetch the
  challenge while it is ACTIVE; the incremental pass completes and rewards it, and the
  batch pass, which holds its copy and reads no status again, completes and rewards it a
  second time: two rewards are logged for the one challenge, and the balance is twice its
  reward points.
\<close>

theorem overlapping_passes_reward_twice:
  "snd (run_actions silent_model bogus_parser one_after_the_other (savings_store, [])) = []
   \<and> map_option status (getChallengeById 0
         (fst (run_actions silent_model bogus_parser one_after_the_other (savings_store, []))))
       = Some COMPLETED
   \<and> awards 0 (fst (run_actions silent_model bogus_parser one_after_the_other
                       (savings_store, []))) = 1
   \<and> snd (run_actions silent_model bogus_parser taking_turns (savings_store, [])) = []
   \<and> map_option status (getChallengeById 0
         (fst (run_actions silent_model bogus_parser taking_turns (savings_store, []))))
       = Some COMPLETED
   \<and> awards 0 (fst (run_actions silent_model bogus_parser taking_turns (savings_store, []))) = 2
   \<and> map points (user_points
         (fst (run_actions silent_model bogus_parser taking_turns (savings_store, []))))
       = [2 * rewardPoints base_challenge]"
  by code_simp

end
